theory Spec2Isabelle
  imports Main
begin

section \<open>NotiFlow: the class-entry form, the class list and the persisted store\<close>

text \<open>
  The sources are the React components of the browser extension. Component state
  (\<open>useState\<close>) is modelled by explicit state passing, \<open>chrome.storage.sync\<close> by a map
  from keys to stored values, and the answers of the local server by parameters.
  JavaScript strings are modelled as \<open>string\<close>; only characters of one byte are
  represented.
\<close>

subsection \<open>Classtime: the selectable times\<close>

definition digit_char :: "nat \<Rightarrow> char" where
  "digit_char d = ''0123456789'' ! d"

text \<open>The decimal rendering of a non-negative integer inside a template literal.\<close>

function string_of_nat :: "nat \<Rightarrow> string" where
  "string_of_nat n =
     (if n < 10 then [digit_char n]
      else string_of_nat (n div 10) @ [digit_char (n mod 10)])"
  by pat_completeness auto
termination
  by (relation "measure id") auto

text \<open>
  The \<open>while\<close> loop of \<open>generateTimes\<close>, with the loop variables \<open>hour\<close>, \<open>minute\<close> and the
  array \<open>times\<close> (here \<open>tms\<close>) as arguments. Started at a minute that is not a multiple
  of 30 the loop would never leave its body, so it is a partial function: not returning
  is the value \<open>None\<close>.
\<close>

partial_function (option) generateTimes_loop ::
  "nat \<Rightarrow> nat \<Rightarrow> string list \<Rightarrow> string list option" where
  "generateTimes_loop hour minute tms =
     (if hour < 21 \<or> (hour = 21 \<and> minute = 0) then
        (let suffix = (if hour \<ge> 12 then ''PM'' else ''AM'');
             displayHour = (if hour > 12 then hour - 12 else hour);
             displayMinute = (if minute = 0 then ''00'' else string_of_nat minute);
             tms' = tms @ [string_of_nat displayHour @ '':'' @ displayMinute @ '' '' @ suffix];
             minute' = minute + 30
         in if minute' = 60 then generateTimes_loop (hour + 1) 0 tms'
            else generateTimes_loop hour minute' tms')
      else Some tms)"

declare generateTimes_loop.simps [code]

definition generateTimes :: "string list option" where
  "generateTimes = generateTimes_loop 8 0 []"

text \<open>\<open>const allTimes = generateTimes()\<close>; the component renders only once the call returned.\<close>

definition allTimes :: "string list" where
  "allTimes = (case generateTimes of Some tms \<Rightarrow> tms | None \<Rightarrow> [])"

subsection \<open>Classtime: timeToMinutes and the valid end times\<close>

text \<open>
  A JavaScript value as \<open>timeToMinutes\<close> handles it: \<open>null\<close>, the number \<open>NaN\<close> or an
  integer.
\<close>

datatype jsnum = Null | NaN | Num int

text \<open>\<open>String.prototype.split\<close> with a separator of one character.\<close>

fun split_on :: "char \<Rightarrow> string \<Rightarrow> string list" where
  "split_on sep [] = [[]]"
| "split_on sep (c # cs) =
     (if c = sep then [] # split_on sep cs
      else (case split_on sep cs of
              w # ws \<Rightarrow> (c # w) # ws
            | [] \<Rightarrow> [[c]]))"

definition is_digit :: "char \<Rightarrow> bool" where
  "is_digit c = (c \<in> set ''0123456789'')"

definition digit_val :: "char \<Rightarrow> int" where
  "digit_val c = int (of_char c) - 48"

text \<open>
  \<open>Number(s)\<close> on a string: the empty string is 0 and a string of decimal digits is its
  value. Every other string is taken to \<open>NaN\<close>; the form only ever converts the digit
  strings that \<open>generateTimes\<close> wrote (signs, fractions, exponents and surrounding blanks
  are not represented).
\<close>

definition js_Number :: "string \<Rightarrow> jsnum" where
  "js_Number s =
     (if list_all is_digit s then Num (foldl (\<lambda>acc c. 10 * acc + digit_val c) 0 s)
      else NaN)"

text \<open>Arithmetic and comparison as JavaScript does them: \<open>null\<close> counts as 0, \<open>NaN\<close> spreads.\<close>

fun js_add :: "jsnum \<Rightarrow> int \<Rightarrow> jsnum" where
  "js_add (Num a) b = Num (a + b)"
| "js_add Null b = Num b"
| "js_add NaN b = NaN"

fun js_ge :: "jsnum \<Rightarrow> jsnum \<Rightarrow> bool" where
  "js_ge NaN _ = False"
| "js_ge _ NaN = False"
| "js_ge a b = ((case a of Num x \<Rightarrow> x | _ \<Rightarrow> 0) \<ge> (case b of Num y \<Rightarrow> y | _ \<Rightarrow> 0))"

definition timeToMinutes :: "string \<Rightarrow> jsnum" where
  "timeToMinutes t =
     (if t = [] then Null
      else
        (let parts = split_on CHR '' '' t;
             time = hd parts;
             suffix = (case tl parts of [] \<Rightarrow> None | s # _ \<Rightarrow> Some s);
             nums = map js_Number (split_on CHR '':'' time);
             h0 = hd nums;
             m = (case tl nums of [] \<Rightarrow> NaN | x # _ \<Rightarrow> x);
             h1 = (if suffix = Some ''PM'' \<and> h0 \<noteq> Num 12 then js_add h0 12 else h0);
             h = (if suffix = Some ''AM'' \<and> h1 = Num 12 then Num 0 else h1)
         in (case (h, m) of
               (Num a, Num b) \<Rightarrow> Num (a * 60 + b)
             | _ \<Rightarrow> NaN)))"

definition validEndTimes :: "string \<Rightarrow> string list" where
  "validEndTimes startTime =
     (if startTime \<noteq> [] then
        filter (\<lambda>t. js_ge (timeToMinutes t) (js_add (timeToMinutes startTime) 30)) allTimes
      else allTimes)"

subsection \<open>Classtime: the form state, isValid and handleSubmit\<close>

text \<open>
  The \<open>days\<close> object, with its keys in insertion order, is an association list. The
  four \<open>useState\<close> variables of the form are also the four fields of the object that
  \<open>handleSubmit\<close> passes to \<open>onSave\<close>, so one record serves for both.
\<close>

type_synonym days = "(string \<times> bool) list"

record class_obj =
  className :: string
  days :: days
  startTime :: string
  endTime :: string

definition initial_days :: days where
  "initial_days =
     [(''M'', False), (''Tu'', False), (''W'', False), (''Th'', False), (''F'', False)]"

definition empty_form :: class_obj where
  "empty_form = \<lparr>className = [], days = initial_days, startTime = [], endTime = []\<rparr>"

text \<open>
  The white space that \<open>String.prototype.trim\<close> removes, as far as it fits one byte:
  tab, line feed, vertical tab, form feed, carriage return, blank and no-break space.
\<close>

definition js_whitespace :: "char \<Rightarrow> bool" where
  "js_whitespace c = (of_char c \<in> {9, 10, 11, 12, 13, 32, 160 :: nat})"

definition js_trim :: "string \<Rightarrow> string" where
  "js_trim s = rev (dropWhile js_whitespace (rev (dropWhile js_whitespace s)))"

definition isValid :: "class_obj \<Rightarrow> bool" where
  "isValid f =
     (js_trim (className f) \<noteq> [] \<and> list_ex snd (days f) \<and>
      startTime f \<noteq> [] \<and> endTime f \<noteq> [])"

text \<open>
  \<open>handleSubmit\<close> returns the argument of its call of \<open>onSave\<close> (\<open>None\<close> when it returns
  without calling it) and the form state it leaves.
\<close>

definition handleSubmit :: "class_obj \<Rightarrow> class_obj option \<times> class_obj" where
  "handleSubmit f = (if \<not> isValid f then (None, f) else (Some f, empty_form))"

text \<open>The \<open>onChange\<close> handlers of the inputs and the effect that loads \<open>initialData\<close>.\<close>

definition setClassName :: "string \<Rightarrow> class_obj \<Rightarrow> class_obj" where
  "setClassName v f = f\<lparr>className := v\<rparr>"

definition toggleDay :: "string \<Rightarrow> class_obj \<Rightarrow> class_obj" where
  "toggleDay d f =
     f\<lparr>days :=
          (if d \<in> fst ` set (days f)
           then map (\<lambda>(k, v). if k = d then (k, \<not> v) else (k, v)) (days f)
           else days f @ [(d, True)])\<rparr>"

definition onStartChange :: "string \<Rightarrow> class_obj \<Rightarrow> class_obj" where
  "onStartChange v f = f\<lparr>startTime := v, endTime := []\<rparr>"

definition onEndChange :: "string \<Rightarrow> class_obj \<Rightarrow> class_obj" where
  "onEndChange v f = f\<lparr>endTime := v\<rparr>"

definition loadInitialData :: "class_obj option \<Rightarrow> class_obj \<Rightarrow> class_obj" where
  "loadInitialData initialData f = (case initialData of None \<Rightarrow> f | Some d \<Rightarrow> d)"

subsection \<open>The persisted store\<close>

text \<open>The exchange object of an exam or midterm, as the pages read its fields.\<close>

record event =
  course :: string
  event_type :: string
  date :: string
  begin_date_time :: string
  end_date_time :: string
  location :: "string option"

text \<open>
  The assignments as \<open>AssignmentPage\<close> reads them: per class name, the arrays of
  \<open>[name, date, time]\<close> items.
\<close>

type_synonym assignments = "(string \<times> string list list list) list"

text \<open>
  What the extension keeps under a key of \<open>chrome.storage.sync\<close>. An array of classes can
  have empty slots (\<open>None\<close>), which an assignment past its end would leave.
\<close>

datatype stored =
    SString string
  | SBool bool
  | SCourses "string list"
  | SEvents "event list"
  | SAssignments assignments
  | SClasses "class_obj option list"

type_synonym storage = "string \<rightharpoonup> stored"

text \<open>\<open>chrome.storage.sync.set(data)\<close> writes the keys of \<open>data\<close> and leaves every other key.\<close>

definition storageSet :: "storage \<Rightarrow> storage \<Rightarrow> storage" where
  "storageSet data st = st ++ data"

subsection \<open>The pages that refresh one category from the server\<close>

text \<open>
  Each \<open>reparse\<close> reads one key, asks the server and, unless the request throws (\<open>None\<close>),
  stores the answer under the page's key and shows it. The server's answer is a parameter.
  The result is the store and the page's list afterwards.
\<close>

definition MidtermPage_reparse ::
  "(stored option \<Rightarrow> event list option) \<Rightarrow> storage \<times> event list \<Rightarrow> storage \<times> event list" where
  "MidtermPage_reparse api_announcements s =
     (case s of (st, midterms) \<Rightarrow>
        (case api_announcements (st ''token'') of
           None \<Rightarrow> (st, midterms)
         | Some fetchedMidterms \<Rightarrow>
             (storageSet [''midterms'' \<mapsto> SEvents fetchedMidterms] st, fetchedMidterms)))"

definition FinalExamPage_reparse ::
  "(stored option \<Rightarrow> event list option) \<Rightarrow> storage \<times> event list \<Rightarrow> storage \<times> event list" where
  "FinalExamPage_reparse api_finalexam s =
     (case s of (st, finals) \<Rightarrow>
        (case api_finalexam (st ''courses'') of
           None \<Rightarrow> (st, finals)
         | Some fetchedFinals \<Rightarrow>
             (storageSet [''finals'' \<mapsto> SEvents fetchedFinals] st, fetchedFinals)))"

definition AssignmentPage_reparse ::
  "(stored option \<Rightarrow> assignments option) \<Rightarrow> storage \<times> assignments \<Rightarrow> storage \<times> assignments" where
  "AssignmentPage_reparse api_assignments s =
     (case s of (st, shown) \<Rightarrow>
        (case api_assignments (st ''token'') of
           None \<Rightarrow> (st, shown)
         | Some fetchedAssignments \<Rightarrow>
             (storageSet [''assignments'' \<mapsto> SAssignments fetchedAssignments] st,
              fetchedAssignments)))"

subsection \<open>ClasstimePage: the class list\<close>

record page =
  classes :: "class_obj option list"
  showInput :: bool
  editingIndex :: "nat option"

text \<open>\<open>updated[i] = v\<close>: past the end, JavaScript extends the array over empty slots.\<close>

definition js_assign :: "'a option list \<Rightarrow> nat \<Rightarrow> 'a \<Rightarrow> 'a option list" where
  "js_assign xs i v =
     (if i < length xs then xs[i := Some v]
      else xs @ replicate (i - length xs) None @ [Some v])"

text \<open>\<open>xs.filter((_, i) => i !== index)\<close>: \<open>filter\<close> also skips the empty slots.\<close>

definition js_filter_index :: "nat \<Rightarrow> 'a option list \<Rightarrow> 'a option list" where
  "js_filter_index index xs =
     map snd (filter (\<lambda>(i, x). x \<noteq> None \<and> i \<noteq> index) (enumerate 0 xs))"

definition handleSave :: "class_obj \<Rightarrow> page \<times> storage \<Rightarrow> page \<times> storage" where
  "handleSave classObj s =
     (case s of (p, st) \<Rightarrow>
        (case editingIndex p of
           Some i \<Rightarrow>
             (let updated = js_assign (classes p) i classObj
              in (p\<lparr>classes := updated, editingIndex := None, showInput := False\<rparr>,
                  storageSet [''classData'' \<mapsto> SClasses updated] st))
         | None \<Rightarrow>
             (let updated = classes p @ [Some classObj]
              in (p\<lparr>classes := updated, showInput := False\<rparr>,
                  storageSet [''classData'' \<mapsto> SClasses updated] st))))"

definition handleDelete :: "nat \<Rightarrow> page \<times> storage \<Rightarrow> page \<times> storage" where
  "handleDelete index s =
     (case s of (p, st) \<Rightarrow>
        (let updated = js_filter_index index (classes p)
         in (p\<lparr>classes := updated\<rparr>, storageSet [''classData'' \<mapsto> SClasses updated] st)))"

definition handleEdit :: "nat \<Rightarrow> page \<Rightarrow> page" where
  "handleEdit index p = p\<lparr>editingIndex := Some index, showInput := True\<rparr>"

text \<open>The effect that follows every change of \<open>classes\<close>.\<close>

definition classes_effect :: "page \<Rightarrow> page" where
  "classes_effect p = p\<lparr>showInput := (length (classes p) = 0)\<rparr>"

subsection \<open>The class page and its form as one system\<close>

text \<open>
  What the user can do on the Classes tab. A control that is not rendered, a disabled
  control and a value that a \<open>select\<close> does not offer leave the state as it is.
  \<open>Reopen\<close> is leaving the tab, or closing the popup, and coming back: the page is
  mounted again from the store.
\<close>

datatype action =
    TypeClassName string
  | ToggleDay string
  | SelectStart string
  | SelectEnd string
  | ClickSubmit
  | ClickEdit nat
  | ClickDelete nat
  | ClickAddAnother
  | Reopen

record ui =
  page_of :: page
  form_of :: class_obj
  store_of :: storage

text \<open>
  Mounting \<open>ClasstimePage\<close>: the class list is read from the store, and the form is shown
  when the list is empty.
\<close>

definition stored_classes :: "storage \<Rightarrow> class_obj option list" where
  "stored_classes st = (case st ''classData'' of Some (SClasses cs) \<Rightarrow> cs | _ \<Rightarrow> [])"

definition mount :: "storage \<Rightarrow> ui" where
  "mount st =
     \<lparr>page_of = classes_effect \<lparr>classes = stored_classes st, showInput = True, editingIndex = None\<rparr>,
      form_of = empty_form,
      store_of = st\<rparr>"

text \<open>The card at an index exists when the array has an entry there (\<open>map\<close> skips empty slots).\<close>

definition card_shown :: "page \<Rightarrow> nat \<Rightarrow> bool" where
  "card_shown p i = (\<not> showInput p \<and> i < length (classes p) \<and> classes p ! i \<noteq> None)"

definition initialData :: "page \<Rightarrow> class_obj option" where
  "initialData p =
     (case editingIndex p of
        None \<Rightarrow> None
      | Some i \<Rightarrow> (if i < length (classes p) then classes p ! i else None))"

fun ui_step :: "action \<Rightarrow> ui \<Rightarrow> ui" where
  "ui_step (TypeClassName v) s =
     (if showInput (page_of s) then s\<lparr>form_of := setClassName v (form_of s)\<rparr> else s)"
| "ui_step (ToggleDay d) s =
     (if showInput (page_of s) \<and> d \<in> fst ` set (days (form_of s))
      then s\<lparr>form_of := toggleDay d (form_of s)\<rparr> else s)"
| "ui_step (SelectStart v) s =
     (if showInput (page_of s) \<and> (v = [] \<or> v \<in> set allTimes)
      then s\<lparr>form_of := onStartChange v (form_of s)\<rparr> else s)"
| "ui_step (SelectEnd v) s =
     (if showInput (page_of s) \<and> startTime (form_of s) \<noteq> [] \<and>
         (v = [] \<or> v \<in> set (validEndTimes (startTime (form_of s))))
      then s\<lparr>form_of := onEndChange v (form_of s)\<rparr> else s)"
| "ui_step ClickSubmit s =
     (if showInput (page_of s) then
        (case handleSubmit (form_of s) of
           (None, f) \<Rightarrow> s\<lparr>form_of := f\<rparr>
         | (Some classObj, f) \<Rightarrow>
             (case handleSave classObj (page_of s, store_of s) of
                (p, st) \<Rightarrow> \<lparr>page_of = classes_effect p, form_of = f, store_of = st\<rparr>))
      else s)"
| "ui_step (ClickEdit i) s =
     (if card_shown (page_of s) i then
        (let p = handleEdit i (page_of s)
         in s\<lparr>page_of := p, form_of := loadInitialData (initialData p) empty_form\<rparr>)
      else s)"
| "ui_step (ClickDelete i) s =
     (if card_shown (page_of s) i then
        (case handleDelete i (page_of s, store_of s) of
           (p, st) \<Rightarrow> \<lparr>page_of = classes_effect p, form_of = empty_form, store_of = st\<rparr>)
      else s)"
| "ui_step ClickAddAnother s =
     (if \<not> showInput (page_of s)
      then s\<lparr>page_of := (page_of s)\<lparr>showInput := True\<rparr>, form_of := empty_form\<rparr> else s)"
| "ui_step Reopen s = mount (store_of s)"

definition run :: "action list \<Rightarrow> ui \<Rightarrow> ui" where
  "run as s = fold ui_step as s"

text \<open>The object that a step passes to \<open>onSave\<close>, if it does.\<close>

definition passed_to_onSave :: "action \<Rightarrow> ui \<Rightarrow> class_obj option" where
  "passed_to_onSave a s =
     (if a = ClickSubmit \<and> showInput (page_of s) then fst (handleSubmit (form_of s)) else None)"

subsection \<open>Reading the stored times\<close>

text \<open>
  A class whose two times are among the generated ones and whose end is a valid end
  time for its start.
\<close>

definition class_times_ok :: "class_obj \<Rightarrow> bool" where
  "class_times_ok c =
     (startTime c \<in> set allTimes \<and> endTime c \<in> set (validEndTimes (startTime c)))"

definition form_ok :: "class_obj \<Rightarrow> bool" where
  "form_ok f =
     ((startTime f = [] \<or> startTime f \<in> set allTimes) \<and>
      (endTime f = [] \<or> class_times_ok f))"

definition classes_ok :: "class_obj option list \<Rightarrow> bool" where
  "classes_ok cs = list_all (\<lambda>x. case x of None \<Rightarrow> False | Some c \<Rightarrow> class_times_ok c) cs"

definition ui_ok :: "ui \<Rightarrow> bool" where
  "ui_ok s =
     (classes_ok (classes (page_of s)) \<and> form_ok (form_of s) \<and>
      (case editingIndex (page_of s) of
         None \<Rightarrow> True
       | Some i \<Rightarrow> showInput (page_of s) \<and> i < length (classes (page_of s))))"

text \<open>
  The time of day of an exchange object, written \<open>HH:MM:SS\<close> (\<open>json_object_format.md\<close>),
  in seconds since midnight; \<open>None\<close> when the string is not three numbers separated by
  colons.
\<close>

definition clock_seconds :: "string \<Rightarrow> int option" where
  "clock_seconds t =
     (case map js_Number (split_on CHR '':'' t) of
        [Num h, Num m, Num sec] \<Rightarrow> Some (h * 3600 + m * 60 + sec)
      | _ \<Rightarrow> None)"

definition stored_midterms :: "storage \<Rightarrow> event list" where
  "stored_midterms st = (case st ''midterms'' of Some (SEvents es) \<Rightarrow> es | _ \<Rightarrow> [])"

text \<open>The sample object \<open>info\<close> at the head of \<open>MidtermPage.jsx\<close>.\<close>

definition info :: "event list" where
  "info =
     [\<lparr>course = ''MATH 253'', event_type = ''Midterm'', date = ''2025/10/15'',
       begin_date_time = ''12:00:00'', end_date_time = ''1:00:00'', location = None\<rparr>]"

text \<open>The store and the form are in step when the page's list is the stored one.\<close>

definition in_sync :: "ui \<Rightarrow> bool" where
  "in_sync s = (stored_classes (store_of s) = classes (page_of s))"

text \<open>
  The invariant of the data model, "start time \<open>\<le>\<close> end time when both present", read on
  an exchange object.
\<close>

definition starts_before_end :: "event \<Rightarrow> bool" where
  "starts_before_end e =
     (case (clock_seconds (begin_date_time e), clock_seconds (end_date_time e)) of
        (Some b, Some f) \<Rightarrow> b \<le> f
      | _ \<Rightarrow> True)"

text \<open>A server that answers every request with \<open>r\<close>.\<close>

definition answer_with :: "'a \<Rightarrow> stored option \<Rightarrow> 'a option" where
  "answer_with r request = Some r"

text \<open>The midterm of the scenario: MATH 253, 12:00 to 13:00 on the given date.\<close>

definition math253_midterm :: "string \<Rightarrow> event" where
  "math253_midterm d =
     \<lparr>course = ''MATH 253'', event_type = ''midterm'', date = d,
      begin_date_time = ''12:00:00'', end_date_time = ''13:00:00'', location = None\<rparr>"

text \<open>A class as the form would submit it, for the examples.\<close>

definition sample_class :: "string \<Rightarrow> class_obj" where
  "sample_class n =
     \<lparr>className = n,
      days = [(''M'', False), (''Tu'', True), (''W'', False), (''Th'', False), (''F'', False)],
      startTime = ''9:00 AM'', endTime = ''10:30 AM''\<rparr>"

definition sample_entry :: "action list" where
  "sample_entry =
     [TypeClassName ''CPEN 221'', ToggleDay ''Tu'', SelectStart ''9:00 AM'',
      SelectEnd ''10:30 AM'']"

definition blank_entry :: "action list" where
  "blank_entry =
     [TypeClassName ''  '', ToggleDay ''Tu'', SelectStart ''9:00 AM'', SelectEnd ''10:30 AM'']"

definition sample_page :: "nat option \<Rightarrow> page" where
  "sample_page e =
     \<lparr>classes = [Some (sample_class ''CPEN 221''), Some (sample_class ''MATH 253''),
                 Some (sample_class ''ELEC 201'')],
      showInput = (e \<noteq> None), editingIndex = e\<rparr>"

definition sample_store :: storage where
  "sample_store =
     [''token'' \<mapsto> SString ''secret'',
      ''midterms'' \<mapsto> SEvents [math253_midterm ''2025/10/15''],
      ''finals'' \<mapsto> SEvents [],
      ''assignments'' \<mapsto> SAssignments [(''CPEN 221'', [[[''Lab 1'', ''2025/09/20'', ''23:59'']]])],
      ''classData'' \<mapsto> SClasses [Some (sample_class ''CPEN 221'')]]"

section \<open>The server side, modelled from the specification\<close>

text \<open>
  The course-identifier parser, the midterm detection and the recurrence expansion
  run on the server, whose code is not among the sources. They are modelled here from
  the specification's words, and what is proved about them is proved about these models.
\<close>

subsection \<open>CourseIdentifierParser\<close>

definition is_upper :: "char \<Rightarrow> bool" where
  "is_upper c = (c \<in> set ''ABCDEFGHIJKLMNOPQRSTUVWXYZ'')"

definition is_letter :: "char \<Rightarrow> bool" where
  "is_letter c = (is_upper c \<or> c \<in> set ''abcdefghijklmnopqrstuvwxyz'')"

text \<open>A validated identifier: the subject letters and the numeric code.\<close>

type_synonym course_id = "string \<times> string"

text \<open>
  Modelled from the spec: the parser of section 4.1, which is missing from the sources.
  It accepts \<open><letters><separator?><3 digits><optional letter>\<close>: one or more
  upper-case letters (section 3), then at most one separator, for which the spec shows
  the blank of "CPEN 221", then exactly three digits, then at most one section letter,
  and nothing after it. Every other string is rejected (\<open>None\<close>).
\<close>

definition parse :: "string \<Rightarrow> course_id option" where
  "parse raw =
     (let subject = takeWhile is_upper raw;
          rest = dropWhile is_upper raw;
          code = (case rest of
                    [] \<Rightarrow> rest
                  | c # r \<Rightarrow> (if c = CHR '' '' then r else rest))
      in if subject \<noteq> [] \<and> (length code = 3 \<or> length code = 4) \<and>
            list_all is_digit (take 3 code) \<and> list_all is_letter (drop 3 code)
         then Some (subject, code) else None)"

text \<open>The exchange schema writes a course as \<open><SUBJECT> <NNN>\<close>.\<close>

definition canonical :: "course_id \<Rightarrow> string" where
  "canonical cid = fst cid @ '' '' @ snd cid"

subsection \<open>MidtermMerger\<close>

text \<open>
  An AnnouncementCandidate: the raw course label, the announcement's text, its
  publication time and the (date, start, end) spans that the extraction found.
\<close>

record candidate =
  cand_course :: string
  cand_text :: string
  published :: nat
  spans :: "(string \<times> string \<times> string) list"

datatype reason = MalformedCourse | NoConcreteSpan | LaterInSameCycle

definition midterm_event :: "string \<Rightarrow> string \<times> string \<times> string \<Rightarrow> event" where
  "midterm_event k sp =
     (case sp of (d, b, f) \<Rightarrow>
        \<lparr>course = k, event_type = ''midterm'', date = d, begin_date_time = b,
         end_date_time = f, location = None\<rparr>)"

text \<open>
  Modelled from the spec: steps 1 to 3 of the merge of section 4.4 (and the second
  limitation of \<open>KNOWN_ISSUES.md\<close>), which run on the server and are missing from the
  sources. Candidates are taken in the order supplied; one whose course does not parse
  is rejected; the first candidate of a course with a concrete span is accepted as the
  midterm of that course; once a course has its midterm (\<open>seen\<close>), every later candidate
  of that course is discarded. The result is the accepted events and the report of
  rejected candidates. Step 4, the replacement in the store, is \<open>MidtermPage_reparse\<close>.
\<close>

fun merge_loop :: "string list \<Rightarrow> candidate list \<Rightarrow> event list \<times> (candidate \<times> reason) list" where
  "merge_loop seen [] = ([], [])"
| "merge_loop seen (c # cs) =
     (case parse (cand_course c) of
        None \<Rightarrow>
          (case merge_loop seen cs of (acc, rej) \<Rightarrow> (acc, (c, MalformedCourse) # rej))
      | Some cid \<Rightarrow>
          (if canonical cid \<in> set seen then
             (case merge_loop seen cs of (acc, rej) \<Rightarrow> (acc, (c, LaterInSameCycle) # rej))
           else
             (case spans c of
                [] \<Rightarrow>
                  (case merge_loop seen cs of (acc, rej) \<Rightarrow> (acc, (c, NoConcreteSpan) # rej))
              | sp # _ \<Rightarrow>
                  (case merge_loop (canonical cid # seen) cs of
                     (acc, rej) \<Rightarrow> (midterm_event (canonical cid) sp # acc, rej)))))"

definition merge_candidates :: "candidate list \<Rightarrow> event list \<times> (candidate \<times> reason) list" where
  "merge_candidates cs = merge_loop [] cs"

text \<open>The canonical course of a candidate, when its label parses.\<close>

definition course_of :: "candidate \<Rightarrow> string option" where
  "course_of c = map_option canonical (parse (cand_course c))"

text \<open>One refresh cycle: the server merges the candidates, the page stores the answer.\<close>

definition refresh_cycle :: "candidate list \<Rightarrow> storage \<Rightarrow> storage" where
  "refresh_cycle cs st =
     fst (MidtermPage_reparse (answer_with (fst (merge_candidates cs))) (st, stored_midterms st))"

subsection \<open>RecurrenceModel\<close>

datatype weekday = MO | TU | WE | TH | FR | SA | SU

text \<open>
  A date is counted in days from a fixed Monday, so that a week is a step of 7.
\<close>

definition weekday_of :: "int \<Rightarrow> weekday" where
  "weekday_of d = [MO, TU, WE, TH, FR, SA, SU] ! nat (d mod 7)"

record recurrence_rule =
  frequency :: string
  interval :: int
  by_day :: "weekday list"
  exception_dates :: "int list"
  anchor :: int

datatype error = InvalidRecurrence

text \<open>The dates of one step: the days of the week beginning at \<open>cur\<close> that fall on a weekday of the rule.\<close>

definition step_dates :: "recurrence_rule \<Rightarrow> int \<Rightarrow> int list" where
  "step_dates rule cur =
     filter (\<lambda>d. weekday_of d \<in> set (by_day rule)) (map (\<lambda>k. cur + int k) [0 ..< 7])"

text \<open>
  Modelled from the spec: \<open>expand\<close> of section 4.2, which is missing from the sources.
  "Starting from the rule's anchor date, step forward by \<open>interval\<close> weeks, emit one date
  per weekday in the weekday set per step, skip any date present in the exception set,
  stop at \<open>date_to\<close>": the stepping ends when it reaches \<open>date_to\<close>, so a date is emitted
  when it lies in the window from \<open>date_from\<close> up to, and not including, \<open>date_to\<close>. An
  empty weekday set or an interval that is not positive is \<open>InvalidRecurrence\<close>.
\<close>

function expand_from :: "recurrence_rule \<Rightarrow> int \<Rightarrow> int \<Rightarrow> int \<Rightarrow> int list" where
  "expand_from rule cur date_from date_to =
     (if interval rule \<le> 0 \<or> date_to \<le> cur then []
      else filter (\<lambda>d. date_from \<le> d \<and> d < date_to \<and> d \<notin> set (exception_dates rule))
             (step_dates rule cur)
           @ expand_from rule (cur + 7 * interval rule) date_from date_to)"
  by pat_completeness auto
termination
  by (relation "measure (\<lambda>(rule, cur, date_from, date_to). nat (date_to - cur))") auto

declare expand_from.simps [simp del]

definition expand :: "recurrence_rule \<Rightarrow> int \<times> int \<Rightarrow> error + int list" where
  "expand rule window =
     (case window of (date_from, date_to) \<Rightarrow>
        (if by_day rule = [] \<or> interval rule \<le> 0 then Inl InvalidRecurrence
         else Inr (expand_from rule (anchor rule) date_from date_to)))"

text \<open>The scenario rule: Tuesdays and Thursdays, every second week, anchored on day 0.\<close>

definition biweekly_tu_th :: "int list \<Rightarrow> recurrence_rule" where
  "biweekly_tu_th ex =
     \<lparr>frequency = ''WEEKLY'', interval = 2, by_day = [TU, TH], exception_dates = ex, anchor = 0\<rparr>"

text \<open>
  The announcements of one cycle, for the examples: two for MATH 253 (the second with
  its label written without a blank) and one whose label is not a course identifier.
\<close>

definition announcement_a :: candidate where
  "announcement_a =
     \<lparr>cand_course = ''MATH 253'', cand_text = ''Midterm on Oct 15'', published = 2,
      spans = [(''2025/10/15'', ''12:00:00'', ''13:00:00'')]\<rparr>"

definition announcement_x :: candidate where
  "announcement_x =
     \<lparr>cand_course = ''Intro to Programming'', cand_text = ''Quiz next week'', published = 1,
      spans = [(''2025/10/20'', ''09:00:00'', ''10:00:00'')]\<rparr>"

definition announcement_b :: candidate where
  "announcement_b =
     \<lparr>cand_course = ''MATH253'', cand_text = ''Second midterm on Nov 12'', published = 0,
      spans = [(''2025/11/12'', ''12:00:00'', ''13:00:00'')]\<rparr>"

definition cycle_announcements :: "candidate list" where
  "cycle_announcements = [announcement_a, announcement_x, announcement_b]"

section \<open>Verification\<close>

subsection \<open>The generated times\<close>

lemma generateTimes_eq: "generateTimes = Some [''8:00 AM'', ''8:30 AM'', ''9:00 AM'', ''9:30 AM'', ''10:00 AM'', ''10:30 AM'', ''11:00 AM'', ''11:30 AM'', ''12:00 PM'', ''12:30 PM'', ''1:00 PM'', ''1:30 PM'', ''2:00 PM'', ''2:30 PM'', ''3:00 PM'', ''3:30 PM'', ''4:00 PM'', ''4:30 PM'', ''5:00 PM'', ''5:30 PM'', ''6:00 PM'', ''6:30 PM'', ''7:00 PM'', ''7:30 PM'', ''8:00 PM'', ''8:30 PM'', ''9:00 PM'']"
  unfolding generateTimes_def
  by (simp add: generateTimes_loop.simps Let_def digit_char_def)

lemmas allTimes_eq = allTimes_def[unfolded generateTimes_eq option.case]

lemma minutes_allTimes:
  "map timeToMinutes allTimes = map Num [480, 510, 540, 570, 600, 630, 660, 690, 720, 750, 780, 810, 840, 870, 900, 930, 960, 990, 1020, 1050, 1080, 1110, 1140, 1170, 1200, 1230, 1260]"
  unfolding allTimes_eq
  by (simp add: timeToMinutes_def Let_def js_Number_def is_digit_def digit_val_def)

lemma half_hours: "map (\<lambda>k. 480 + 30 * int k) [0..<27] = [480, 510, 540, 570, 600, 630, 660, 690, 720, 750, 780, 810, 840, 870, 900, 930, 960, 990, 1020, 1050, 1080, 1110, 1140, 1170, 1200, 1230, 1260]"
  by code_simp

lemma minutes_allTimes_upt:
  "map timeToMinutes allTimes = map (\<lambda>k. Num (480 + 30 * int k)) [0..<27]"
proof -
  have "map (\<lambda>k. Num (480 + 30 * int k)) [0..<27] = map Num (map (\<lambda>k. 480 + 30 * int k) [0..<27])"
    by (simp only: map_map comp_def)
  then show ?thesis
    by (simp only: minutes_allTimes half_hours)
qed

lemma allTimes_minutes_range:
  assumes "t \<in> set allTimes"
  shows "\<exists>m. timeToMinutes t = Num m \<and> 480 \<le> m \<and> m \<le> 1260"
proof -
  from assms have "timeToMinutes t \<in> set (map timeToMinutes allTimes)"
    by simp
  then show ?thesis
    unfolding minutes_allTimes by auto
qed

lemma allTimes_nonempty: "t \<in> set allTimes \<Longrightarrow> t \<noteq> []"
  unfolding allTimes_eq by auto

lemma validEndTimes_subset: "set (validEndTimes s) \<subseteq> set allTimes"
  by (auto simp: validEndTimes_def)

lemma validEndTimes_later:
  assumes "s \<in> set allTimes" and "t \<in> set (validEndTimes s)"
  shows "\<exists>a b. timeToMinutes s = Num a \<and> timeToMinutes t = Num b \<and> a + 30 \<le> b"
proof -
  from assms(1) obtain a where a: "timeToMinutes s = Num a"
    using allTimes_minutes_range by blast
  from assms(2) have "t \<in> set allTimes"
    using validEndTimes_subset by blast
  then obtain b where b: "timeToMinutes t = Num b"
    using allTimes_minutes_range by blast
  from assms have "js_ge (timeToMinutes t) (js_add (timeToMinutes s) 30)"
    by (auto simp: validEndTimes_def allTimes_nonempty split: if_splits)
  with a b show ?thesis by simp
qed

text \<open>
  Claim C9. \<open>generateTimes\<close> returns, and returns exactly 27 strings: 8:00 AM to 9:00 PM in
  steps of 30 minutes, strictly increasing in time of day. Hence every time that the
  start or the end \<open>select\<close> offers lies between 08:00 and 21:00.
\<close>

theorem generateTimes_half_hours:
  "generateTimes = Some allTimes \<and> length allTimes = 27 \<and>
   hd allTimes = ''8:00 AM'' \<and> last allTimes = ''9:00 PM'' \<and>
   map timeToMinutes allTimes = map (\<lambda>k. Num (480 + 30 * int k)) [0..<27] \<and>
   sorted_wrt (<) (map (\<lambda>k. 480 + 30 * int k) [0..<27]) \<and>
   (\<forall>t \<in> set allTimes \<union> set (validEndTimes s).
      \<exists>m. timeToMinutes t = Num m \<and> 8 * 60 \<le> m \<and> m \<le> 21 * 60)"
proof -
  have "generateTimes = Some allTimes"
    by (simp add: allTimes_def generateTimes_eq)
  moreover have "length allTimes = 27" "hd allTimes = ''8:00 AM''" "last allTimes = ''9:00 PM''"
    by (simp_all add: allTimes_eq)
  moreover have "sorted_wrt (<) (map (\<lambda>k. 480 + 30 * int k) [0..<27])"
    unfolding half_hours by simp
  moreover have "\<exists>m. timeToMinutes t = Num m \<and> 8 * 60 \<le> m \<and> m \<le> 21 * 60"
    if "t \<in> set allTimes \<union> set (validEndTimes s)" for t
    using that validEndTimes_subset [of s] allTimes_minutes_range [of t] by auto
  ultimately show ?thesis
    using minutes_allTimes_upt by blast
qed

theorem generateTimes_half_hours_witness:
  "''9:00 PM'' \<in> set (validEndTimes ''8:30 PM'') \<and>
   (\<exists>m. timeToMinutes ''9:00 PM'' = Num m \<and> 8 * 60 \<le> m \<and> m \<le> 21 * 60)"
proof -
  have mem: "''9:00 PM'' \<in> set (validEndTimes ''8:30 PM'')"
    by (simp add: validEndTimes_def allTimes_eq timeToMinutes_def Let_def js_Number_def
        is_digit_def digit_val_def)
  with generateTimes_half_hours [of "''8:30 PM''"] show ?thesis
    by blast
qed

subsection \<open>Rejected submissions\<close>

lemma sample_run:
  "form_of (run sample_entry (mount Map.empty)) = sample_class ''CPEN 221'' \<and>
   showInput (page_of (run sample_entry (mount Map.empty)))"
  by (simp add: run_def sample_entry_def mount_def stored_classes_def classes_effect_def
      empty_form_def initial_days_def setClassName_def toggleDay_def onStartChange_def
      onEndChange_def sample_class_def validEndTimes_def allTimes_eq timeToMinutes_def Let_def
      js_Number_def is_digit_def digit_val_def)

lemma sample_valid: "isValid (sample_class ''CPEN 221'')"
  by (simp add: isValid_def sample_class_def js_trim_def js_whitespace_def)

lemma blank_run:
  "form_of (run blank_entry (mount Map.empty)) = sample_class ''  ''"
  by (simp add: run_def blank_entry_def mount_def stored_classes_def classes_effect_def
      empty_form_def initial_days_def setClassName_def toggleDay_def onStartChange_def
      onEndChange_def sample_class_def validEndTimes_def allTimes_eq timeToMinutes_def Let_def
      js_Number_def is_digit_def digit_val_def)

text \<open>
  Claim C8. A submission with no weekday checked, with a course name that is empty
  after trimming, or with a missing start or end time is not saved: \<open>handleSubmit\<close>
  returns without calling \<open>onSave\<close>, and neither the class list nor the store changes.
\<close>

theorem invalid_submission_not_saved:
  assumes "js_trim (className (form_of s)) = [] \<or> \<not> list_ex snd (days (form_of s)) \<or>
           startTime (form_of s) = [] \<or> endTime (form_of s) = []"
  shows "fst (handleSubmit (form_of s)) = None \<and>
         passed_to_onSave ClickSubmit s = None \<and>
         classes (page_of (ui_step ClickSubmit s)) = classes (page_of s) \<and>
         store_of (ui_step ClickSubmit s) = store_of s \<and>
         ui_step ClickSubmit s = s"
proof -
  from assms have inv: "\<not> isValid (form_of s)"
    by (auto simp: isValid_def)
  then have sub: "handleSubmit (form_of s) = (None, form_of s)"
    by (simp add: handleSubmit_def)
  then have "ui_step ClickSubmit s = s"
    by simp
  with sub show ?thesis
    by (simp add: passed_to_onSave_def)
qed

theorem invalid_submission_not_saved_witness:
  "js_trim (className (form_of (run blank_entry (mount Map.empty)))) = [] \<and>
   passed_to_onSave ClickSubmit (run blank_entry (mount Map.empty)) = None \<and>
   classes (page_of (ui_step ClickSubmit (run blank_entry (mount Map.empty)))) = []"
proof -
  have blank: "js_trim (className (form_of (run blank_entry (mount Map.empty)))) = []"
    by (simp add: blank_run sample_class_def js_trim_def js_whitespace_def)
  have "classes (page_of (run blank_entry (mount Map.empty))) = []"
    by (simp add: run_def blank_entry_def mount_def stored_classes_def classes_effect_def)
  with blank invalid_submission_not_saved [of "run blank_entry (mount Map.empty)"]
  show ?thesis by simp
qed

subsection \<open>Edits of the class list\<close>

lemma filter_not_None: "None \<notin> set xs \<Longrightarrow> filter (\<lambda>x. x \<noteq> None) xs = xs"
proof (rule filter_True)
  assume "None \<notin> set xs"
  then show "\<forall>x\<in>set xs. x \<noteq> None" by metis
qed

lemma enumerate_skip_none:
  "k < m \<Longrightarrow> map snd (filter (\<lambda>(i, x). x \<noteq> None \<and> i \<noteq> k) (enumerate m xs))
     = filter (\<lambda>x. x \<noteq> None) xs"
  by (induction xs arbitrary: m) auto

lemma js_filter_index_aux:
  "map snd (filter (\<lambda>(i, x). x \<noteq> None \<and> i \<noteq> k + n) (enumerate k xs))
   = filter (\<lambda>x. x \<noteq> None) (take n xs) @ filter (\<lambda>x. x \<noteq> None) (drop (Suc n) xs)"
proof (induction xs arbitrary: k n)
  case Nil
  then show ?case by simp
next
  case (Cons x xs)
  show ?case
  proof (cases n)
    case 0
    then show ?thesis
      using enumerate_skip_none [of k "Suc k" xs] by simp
  next
    case (Suc m)
    then show ?thesis
      using Cons.IH [of "Suc k" m] by simp
  qed
qed

lemma js_filter_index_eq:
  assumes "None \<notin> set xs"
  shows "js_filter_index i xs = take i xs @ drop (Suc i) xs"
proof -
  have "None \<notin> set (take i xs)" "None \<notin> set (drop (Suc i) xs)"
    using assms by (auto dest: in_set_takeD in_set_dropD)
  then show ?thesis
    using js_filter_index_aux [of 0 i xs] by (simp add: js_filter_index_def filter_not_None del: not_None_eq)
qed

text \<open>
  Claim C10. \<open>handleSave\<close> with \<open>editingIndex\<close> null appends the class to the list,
  whatever the list is (the empty list of a first use included), and leaves the entries
  that were there as they were; with \<open>editingIndex\<close> set to an index inside the list it
  replaces the entry at that index and nothing else; \<open>handleDelete\<close>, on a list without
  empty slots, removes the entry at its index and keeps the others in order (an index
  past the end removes nothing); and in each case the list written under \<open>classData\<close> is
  that same list. Every state the page reaches has a list without empty slots and an
  \<open>editingIndex\<close> inside it, see \<open>run_ok\<close> below.
\<close>

theorem class_list_edits_local:
  "(editingIndex p = None \<longrightarrow>
      classes (fst (handleSave c (p, st))) = classes p @ [Some c] \<and>
      snd (handleSave c (p, st)) ''classData'' = Some (SClasses (classes p @ [Some c]))) \<and>
   (editingIndex p = Some i \<and> i < length (classes p) \<longrightarrow>
      classes (fst (handleSave c (p, st))) = (classes p)[i := Some c] \<and>
      length (classes (fst (handleSave c (p, st)))) = length (classes p) \<and>
      (\<forall>k. k \<noteq> i \<longrightarrow> classes (fst (handleSave c (p, st))) ! k = classes p ! k) \<and>
      snd (handleSave c (p, st)) ''classData'' = Some (SClasses ((classes p)[i := Some c]))) \<and>
   (None \<notin> set (classes p) \<longrightarrow>
      classes (fst (handleDelete j (p, st))) = take j (classes p) @ drop (Suc j) (classes p) \<and>
      snd (handleDelete j (p, st)) ''classData'' =
        Some (SClasses (take j (classes p) @ drop (Suc j) (classes p))))"
proof -
  have append: "classes (fst (handleSave c (p, st))) = classes p @ [Some c] \<and>
      snd (handleSave c (p, st)) ''classData'' = Some (SClasses (classes p @ [Some c]))"
    if "editingIndex p = None"
    using that by (simp add: handleSave_def Let_def storageSet_def)
  have edit: "classes (fst (handleSave c (p, st))) = (classes p)[i := Some c] \<and>
      snd (handleSave c (p, st)) ''classData'' = Some (SClasses ((classes p)[i := Some c]))"
    if "editingIndex p = Some i" "i < length (classes p)"
    using that by (simp add: handleSave_def js_assign_def Let_def storageSet_def)
  have delete: "classes (fst (handleDelete j (p, st))) = take j (classes p) @ drop (Suc j) (classes p) \<and>
      snd (handleDelete j (p, st)) ''classData'' =
        Some (SClasses (take j (classes p) @ drop (Suc j) (classes p)))"
    if "None \<notin> set (classes p)"
    using that by (simp add: handleDelete_def Let_def storageSet_def js_filter_index_eq)
  from append edit delete show ?thesis
    by simp
qed

theorem class_list_edits_local_witness:
  "classes (fst (handleSave (sample_class ''PHYS 158'') (page_of (mount Map.empty), Map.empty)))
     = [Some (sample_class ''PHYS 158'')] \<and>
   classes (fst (handleSave (sample_class ''PHYS 158'') (sample_page None, sample_store)))
     = [Some (sample_class ''CPEN 221''), Some (sample_class ''MATH 253''),
        Some (sample_class ''ELEC 201''), Some (sample_class ''PHYS 158'')] \<and>
   classes (fst (handleSave (sample_class ''PHYS 158'') (sample_page (Some 1), sample_store)))
     = [Some (sample_class ''CPEN 221''), Some (sample_class ''PHYS 158''),
        Some (sample_class ''ELEC 201'')] \<and>
   snd (handleDelete 1 (sample_page None, sample_store)) ''classData''
     = Some (SClasses [Some (sample_class ''CPEN 221''), Some (sample_class ''ELEC 201'')])"
proof -
  have first: "classes (page_of (mount Map.empty)) = []"
      "editingIndex (page_of (mount Map.empty)) = None"
    by (simp_all add: mount_def stored_classes_def classes_effect_def)
  have holes: "None \<notin> set (classes (sample_page e))" for e
    by (simp add: sample_page_def)
  have len: "1 < length (classes (sample_page (Some 1)))"
    by (simp add: sample_page_def)
  have idx: "editingIndex (sample_page (Some 1)) = Some 1" "editingIndex (sample_page None) = None"
    by (simp_all add: sample_page_def)
  from class_list_edits_local [where p = "page_of (mount Map.empty)"
        and c = "sample_class ''PHYS 158''" and st = Map.empty] first
  have a: "classes (fst (handleSave (sample_class ''PHYS 158'') (page_of (mount Map.empty), Map.empty)))
      = [Some (sample_class ''PHYS 158'')]"
    by simp
  from class_list_edits_local [where p = "sample_page None" and j = 1
        and c = "sample_class ''PHYS 158''" and st = sample_store] idx(2) holes [of None]
  have b: "classes (fst (handleSave (sample_class ''PHYS 158'') (sample_page None, sample_store)))
      = classes (sample_page None) @ [Some (sample_class ''PHYS 158'')]"
    and d: "snd (handleDelete 1 (sample_page None, sample_store)) ''classData''
      = Some (SClasses (take 1 (classes (sample_page None)) @ drop (Suc 1) (classes (sample_page None))))"
    by simp_all
  from class_list_edits_local [where p = "sample_page (Some 1)" and i = 1
        and c = "sample_class ''PHYS 158''" and st = sample_store] idx(1) len
  have e: "classes (fst (handleSave (sample_class ''PHYS 158'') (sample_page (Some 1), sample_store)))
      = (classes (sample_page (Some 1)))[1 := Some (sample_class ''PHYS 158'')]"
    by simp
  from a b d e show ?thesis
    by (simp add: sample_page_def)
qed

subsection \<open>Every state of the class page keeps its times in order\<close>

lemma classes_ok_iff:
  "classes_ok cs \<longleftrightarrow> (\<forall>x \<in> set cs. \<exists>c. x = Some c \<and> class_times_ok c)"
  by (auto simp: classes_ok_def list_all_iff split: option.splits)

lemma classes_ok_no_holes: "classes_ok cs \<Longrightarrow> None \<notin> set cs"
  by (auto simp: classes_ok_iff)

lemma classes_ok_update:
  "classes_ok cs \<Longrightarrow> class_times_ok c \<Longrightarrow> classes_ok (cs[i := Some c])"
  unfolding classes_ok_iff by (auto dest!: set_update_subset_insert [THEN subsetD])

lemma classes_ok_append:
  "classes_ok cs \<Longrightarrow> class_times_ok c \<Longrightarrow> classes_ok (cs @ [Some c])"
  unfolding classes_ok_iff by auto

lemma classes_ok_delete:
  assumes "classes_ok cs"
  shows "classes_ok (js_filter_index i cs)"
proof -
  have "set (take i cs @ drop (Suc i) cs) \<subseteq> set cs"
    by (auto dest: in_set_takeD in_set_dropD)
  with assms show ?thesis
    unfolding classes_ok_iff js_filter_index_eq [OF classes_ok_no_holes [OF assms]] by blast
qed

lemma stored_classes_set [simp]:
  "stored_classes (storageSet [''classData'' \<mapsto> SClasses cs] st) = cs"
  by (simp add: stored_classes_def storageSet_def)

lemma valid_form_times:
  assumes "form_ok f" and "isValid f"
  shows "class_times_ok f"
  using assms by (auto simp: form_ok_def isValid_def)

lemma mount_ok:
  "classes_ok (stored_classes st) \<Longrightarrow> ui_ok (mount st) \<and> in_sync (mount st)"
  by (simp add: mount_def ui_ok_def in_sync_def classes_effect_def form_ok_def empty_form_def)

lemma ui_step_ok:
  assumes "ui_ok s" and "in_sync s"
  shows "ui_ok (ui_step a s) \<and> in_sync (ui_step a s)"
proof (cases a)
  case (TypeClassName v)
  with assms show ?thesis
    by (auto simp: ui_ok_def in_sync_def form_ok_def class_times_ok_def setClassName_def split: option.splits)
next
  case (ToggleDay d)
  with assms show ?thesis
    by (auto simp: ui_ok_def in_sync_def form_ok_def class_times_ok_def toggleDay_def split: option.splits)
next
  case (SelectStart v)
  with assms show ?thesis
    by (auto simp: ui_ok_def in_sync_def form_ok_def class_times_ok_def onStartChange_def split: option.splits)
next
  case (SelectEnd v)
  with assms show ?thesis
    by (auto simp: ui_ok_def in_sync_def form_ok_def class_times_ok_def onEndChange_def split: option.splits)
next
  case ClickSubmit
  show ?thesis
  proof (cases "showInput (page_of s) \<and> isValid (form_of s)")
    case False
    with assms ClickSubmit show ?thesis
      by (auto simp: handleSubmit_def)
  next
    case True
    with assms have ok: "class_times_ok (form_of s)"
      by (simp add: valid_form_times ui_ok_def)
    from assms have cs: "classes_ok (classes (page_of s))"
      by (simp add: ui_ok_def)
    have empty: "form_ok empty_form"
      by (simp add: form_ok_def empty_form_def)
    show ?thesis
    proof (cases "editingIndex (page_of s)")
      case None
      with True ClickSubmit classes_ok_append [OF cs ok] empty show ?thesis
        by (simp add: handleSubmit_def handleSave_def Let_def ui_ok_def in_sync_def
            classes_effect_def)
    next
      case (Some i)
      with assms have "i < length (classes (page_of s))"
        by (simp add: ui_ok_def)
      with Some True ClickSubmit classes_ok_update [OF cs ok, of i] empty show ?thesis
        by (simp add: handleSubmit_def handleSave_def Let_def ui_ok_def in_sync_def
            classes_effect_def js_assign_def)
    qed
  qed
next
  case (ClickEdit i)
  show ?thesis
  proof (cases "card_shown (page_of s) i")
    case False
    with assms ClickEdit show ?thesis by simp
  next
    case True
    then have i: "i < length (classes (page_of s))"
      by (simp add: card_shown_def)
    with assms obtain c where c: "classes (page_of s) ! i = Some c" "class_times_ok c"
      unfolding ui_ok_def classes_ok_iff by (meson nth_mem)
    then have "form_ok c"
      by (simp add: form_ok_def class_times_ok_def)
    with True i c assms ClickEdit show ?thesis
      by (simp add: ui_ok_def in_sync_def handleEdit_def initialData_def loadInitialData_def
          Let_def)
  qed
next
  case (ClickDelete i)
  show ?thesis
  proof (cases "card_shown (page_of s) i")
    case False
    with assms ClickDelete show ?thesis by simp
  next
    case True
    then have "\<not> showInput (page_of s)"
      by (simp add: card_shown_def)
    with assms have none: "editingIndex (page_of s) = None"
      by (auto simp: ui_ok_def split: option.splits)
    from assms have "classes_ok (js_filter_index i (classes (page_of s)))"
      by (simp add: ui_ok_def classes_ok_delete)
    with True none ClickDelete show ?thesis
      by (simp add: handleDelete_def Let_def ui_ok_def in_sync_def classes_effect_def
          form_ok_def empty_form_def)
  qed
next
  case Reopen
  from assms have "classes_ok (stored_classes (store_of s))"
    by (simp add: ui_ok_def in_sync_def)
  with Reopen show ?thesis
    by (simp add: mount_ok)
next
  case ClickAddAnother
  show ?thesis
  proof (cases "showInput (page_of s)")
    case True
    with assms ClickAddAnother show ?thesis by simp
  next
    case False
    with assms have "editingIndex (page_of s) = None"
      by (auto simp: ui_ok_def split: option.splits)
    with False assms ClickAddAnother show ?thesis
      by (simp add: ui_ok_def in_sync_def form_ok_def empty_form_def)
  qed
qed

lemma run_ok:
  "ui_ok s \<Longrightarrow> in_sync s \<Longrightarrow> ui_ok (run as s) \<and> in_sync (run as s)"
  unfolding run_def
  by (induction as arbitrary: s) (simp_all add: ui_step_ok)

lemma class_times_ok_later:
  assumes "class_times_ok c"
  shows "\<exists>a b. timeToMinutes (startTime c) = Num a \<and> timeToMinutes (endTime c) = Num b \<and>
           a + 30 \<le> b"
  using assms validEndTimes_later by (simp add: class_times_ok_def)

lemma class_times_ok_generated:
  assumes "class_times_ok c"
  shows "startTime c \<in> set allTimes \<and> endTime c \<in> set allTimes"
  using assms validEndTimes_subset by (auto simp: class_times_ok_def)

text \<open>
  Claim C7, as amended. Started from a store whose classes have valid times (the empty
  store of a first use is one), whatever the user does on the Classes tab: every
  stored class has both times among the generated ones, its end at least 30 minutes
  after its start; and every class passed to \<open>onSave\<close> has its end strictly after its
  start. This rests on the end \<open>select\<close> offering only \<open>validEndTimes\<close> and on a change of
  the start time clearing the end time. Events fetched from the server are stored as
  they arrive and are not covered.
\<close>

theorem saved_class_ends_after_start:
  assumes "classes_ok (stored_classes st)"
  shows "(\<forall>x \<in> set (stored_classes (store_of (run as (mount st)))).
            \<exists>c a b. x = Some c \<and> startTime c \<in> set allTimes \<and> endTime c \<in> set allTimes \<and>
              timeToMinutes (startTime c) = Num a \<and>
              timeToMinutes (endTime c) = Num b \<and> a + 30 \<le> b) \<and>
         (\<forall>c. passed_to_onSave act (run as (mount st)) = Some c \<longrightarrow>
            startTime c \<in> set allTimes \<and> endTime c \<in> set allTimes \<and>
            (\<exists>a b. timeToMinutes (startTime c) = Num a \<and>
              timeToMinutes (endTime c) = Num b \<and> a + 30 \<le> b \<and> a < b))"
proof -
  let ?s = "run as (mount st)"
  have ok: "ui_ok ?s" and sync: "in_sync ?s"
    using run_ok mount_ok assms by blast+
  have "\<exists>c a b. x = Some c \<and> startTime c \<in> set allTimes \<and> endTime c \<in> set allTimes \<and>
          timeToMinutes (startTime c) = Num a \<and>
          timeToMinutes (endTime c) = Num b \<and> a + 30 \<le> b"
    if "x \<in> set (stored_classes (store_of ?s))" for x
  proof -
    from that sync ok obtain c where "x = Some c" "class_times_ok c"
      unfolding in_sync_def ui_ok_def classes_ok_iff by metis
    then show ?thesis
      using class_times_ok_later [of c] class_times_ok_generated [of c] by blast
  qed
  moreover have "startTime c \<in> set allTimes \<and> endTime c \<in> set allTimes \<and>
          (\<exists>a b. timeToMinutes (startTime c) = Num a \<and>
          timeToMinutes (endTime c) = Num b \<and> a + 30 \<le> b \<and> a < b)"
    if "passed_to_onSave act ?s = Some c" for c
  proof -
    from that have "isValid (form_of ?s)" "c = form_of ?s"
      by (auto simp: passed_to_onSave_def handleSubmit_def split: if_splits)
    with ok have times: "class_times_ok c"
      by (simp add: valid_form_times ui_ok_def)
    then have "\<exists>a b. timeToMinutes (startTime c) = Num a \<and>
          timeToMinutes (endTime c) = Num b \<and> a + 30 \<le> b \<and> a < b"
      using class_times_ok_later by fastforce
    with times show ?thesis
      using class_times_ok_generated by blast
  qed
  ultimately show ?thesis by blast
qed

theorem saved_class_ends_after_start_witness:
  "classes_ok (stored_classes Map.empty) \<and>
   stored_classes (store_of (run (sample_entry @ [ClickSubmit]) (mount Map.empty)))
     = [Some (sample_class ''CPEN 221'')] \<and>
   passed_to_onSave ClickSubmit (run sample_entry (mount Map.empty))
     = Some (sample_class ''CPEN 221'') \<and>
   (\<exists>a b. timeToMinutes (startTime (sample_class ''CPEN 221'')) = Num a \<and>
      timeToMinutes (endTime (sample_class ''CPEN 221'')) = Num b \<and> a + 30 \<le> b \<and> a < b)"
proof -
  have start: "classes_ok (stored_classes Map.empty)"
    by (simp add: stored_classes_def classes_ok_def)
  have passed: "passed_to_onSave ClickSubmit (run sample_entry (mount Map.empty))
      = Some (sample_class ''CPEN 221'')"
    using sample_run sample_valid by (simp add: passed_to_onSave_def handleSubmit_def)
  have "run (sample_entry @ [ClickSubmit]) (mount Map.empty)
      = ui_step ClickSubmit (run sample_entry (mount Map.empty))"
    by (simp add: run_def)
  moreover have "page_of (run sample_entry (mount Map.empty))
      = \<lparr>classes = [], showInput = True, editingIndex = None\<rparr>"
    by (simp add: run_def sample_entry_def mount_def stored_classes_def classes_effect_def)
  ultimately have saved: "stored_classes (store_of (run (sample_entry @ [ClickSubmit]) (mount Map.empty)))
      = [Some (sample_class ''CPEN 221'')]"
    using sample_run sample_valid by (simp add: handleSubmit_def handleSave_def Let_def)
  from saved_class_ends_after_start [OF start, where act = ClickSubmit and as = sample_entry] passed
  show ?thesis
    using start saved by blast
qed

text \<open>
  The claim as first stated, for every stored event, fails: \<open>reparse\<close> stores the
  server's answer unchecked, and the sample object \<open>info\<close> of \<open>MidtermPage.jsx\<close> begins at
  12:00:00 and ends at 1:00:00.
\<close>

theorem stored_event_times_counterexample:
  "\<not> list_all starts_before_end
       (stored_midterms (fst (MidtermPage_reparse (answer_with info) (Map.empty, []))))"
  by (simp add: MidtermPage_reparse_def answer_with_def stored_midterms_def storageSet_def
      info_def starts_before_end_def clock_seconds_def js_Number_def is_digit_def digit_val_def)

subsection \<open>Refreshing one category\<close>

text \<open>
  Claim C6. Each refresh writes the key of its own category only: after \<open>reparse\<close> on
  the midterm, final-exam or assignment page, and after a save or a deletion on the
  class page, every other key of the store holds what it held before, whatever the
  store was and whatever the server answered.
\<close>

theorem refresh_writes_one_key:
  "(k \<noteq> ''midterms'' \<longrightarrow> fst (MidtermPage_reparse api_m (st, ms)) k = st k) \<and>
   (k \<noteq> ''finals'' \<longrightarrow> fst (FinalExamPage_reparse api_f (st, fs)) k = st k) \<and>
   (k \<noteq> ''assignments'' \<longrightarrow> fst (AssignmentPage_reparse api_a (st, asg)) k = st k) \<and>
   (k \<noteq> ''classData'' \<longrightarrow>
      snd (handleSave c (p, st)) k = st k \<and> snd (handleDelete i (p, st)) k = st k)"
  by (simp add: MidtermPage_reparse_def FinalExamPage_reparse_def AssignmentPage_reparse_def
      handleSave_def handleDelete_def storageSet_def Let_def split: option.splits)

theorem refresh_writes_one_key_witness:
  "fst (MidtermPage_reparse (answer_with info) (sample_store, [])) ''classData''
     = Some (SClasses [Some (sample_class ''CPEN 221'')]) \<and>
   fst (FinalExamPage_reparse (answer_with info) (sample_store, [])) ''midterms''
     = Some (SEvents [math253_midterm ''2025/10/15'']) \<and>
   fst (AssignmentPage_reparse (answer_with []) (sample_store, [])) ''finals''
     = Some (SEvents []) \<and>
   snd (handleSave (sample_class ''PHYS 158'') (sample_page None, sample_store)) ''midterms''
     = Some (SEvents [math253_midterm ''2025/10/15'']) \<and>
   snd (handleDelete 0 (sample_page None, sample_store)) ''token'' = Some (SString ''secret'')"
  using refresh_writes_one_key [where k = "''classData''" and api_m = "answer_with info"
        and st = sample_store and ms = "[]"]
    refresh_writes_one_key [where k = "''midterms''" and api_f = "answer_with info"
        and st = sample_store and fs = "[]" and c = "sample_class ''PHYS 158''"
        and p = "sample_page None"]
    refresh_writes_one_key [where k = "''finals''" and api_a = "answer_with []"
        and st = sample_store and asg = "[]"]
    refresh_writes_one_key [where k = "''token''" and st = sample_store
        and p = "sample_page None" and i = 0]
  by (simp add: sample_store_def)

subsection \<open>Refreshing the midterms\<close>

text \<open>
  Claim C1. Whatever midterms were stored before: when a refresh succeeds and the
  server's answer carries one accepted midterm for a course, the store afterwards holds
  exactly that one midterm for the course, with its date; what was stored for the
  course before is replaced, not kept beside it. The scenario of MATH 253 (2025/10/15
  in the first cycle, 2025/10/22 in the second) is the witness.
\<close>

theorem midterm_refresh_replaces:
  assumes "api_announcements (st ''token'') = Some fetched"
    and "filter (\<lambda>e. course e = c) fetched = [m]"
  shows "stored_midterms (fst (MidtermPage_reparse api_announcements (st, shown))) = fetched \<and>
         snd (MidtermPage_reparse api_announcements (st, shown)) = fetched \<and>
         filter (\<lambda>e. course e = c)
           (stored_midterms (fst (MidtermPage_reparse api_announcements (st, shown)))) = [m]"
  using assms
  by (simp add: MidtermPage_reparse_def stored_midterms_def storageSet_def)

theorem midterm_refresh_replaces_witness:
  "filter (\<lambda>e. course e = ''MATH 253'')
     (stored_midterms (fst (MidtermPage_reparse (answer_with [math253_midterm ''2025/10/22''])
        (MidtermPage_reparse (answer_with [math253_midterm ''2025/10/15'']) (Map.empty, [])))))
     = [math253_midterm ''2025/10/22''] \<and>
   stored_midterms (fst (MidtermPage_reparse (answer_with [math253_midterm ''2025/10/15''])
        (Map.empty, [])))
     = [math253_midterm ''2025/10/15''] \<and>
   date (math253_midterm ''2025/10/22'') = ''2025/10/22''"
proof -
  let ?first = "MidtermPage_reparse (answer_with [math253_midterm ''2025/10/15'']) (Map.empty, [])"
  have one: "filter (\<lambda>e. course e = ''MATH 253'') [math253_midterm d] = [math253_midterm d]" for d
    by (simp add: math253_midterm_def)
  have ans: "answer_with r request = Some r" for r :: "event list" and request
    by (simp add: answer_with_def)
  from midterm_refresh_replaces [where api_announcements = "answer_with [math253_midterm ''2025/10/22'']"
        and st = "fst ?first" and shown = "snd ?first" and c = "''MATH 253''"
        and fetched = "[math253_midterm ''2025/10/22'']" and m = "math253_midterm ''2025/10/22''",
        OF ans one]
    midterm_refresh_replaces [where api_announcements = "answer_with [math253_midterm ''2025/10/15'']"
        and st = Map.empty and shown = "[]" and c = "''MATH 253''"
        and fetched = "[math253_midterm ''2025/10/15'']" and m = "math253_midterm ''2025/10/15''",
        OF ans one]
  show ?thesis
    by (simp add: math253_midterm_def)
qed

section \<open>Verification of the modelled server side\<close>

subsection \<open>The course identifier grammar\<close>

lemma parse_accepts:
  assumes "letters \<noteq> []" "list_all is_upper letters" "sep = [] \<or> sep = '' ''"
    "length digits = 3" "list_all is_digit digits"
    "sect = [] \<or> (\<exists>c. sect = [c] \<and> is_letter c)"
  shows "parse (letters @ sep @ digits @ sect) = Some (letters, digits @ sect)"
proof -
  obtain d ds where d: "digits = d # ds"
    using assms(4) by (cases digits) auto
  with assms(5) have dd: "is_digit d" by simp
  have nu: "\<not> is_upper d"
    using dd by (auto simp: is_digit_def is_upper_def)
  have nb: "d \<noteq> CHR '' ''"
    using dd by (auto simp: is_digit_def)
  have sp: "\<not> is_upper CHR '' ''"
    by (simp add: is_upper_def)
  have all: "\<And>x. x \<in> set letters \<Longrightarrow> is_upper x"
    using assms(2) by (simp add: list_all_iff)
  have tw: "takeWhile is_upper (letters @ sep @ digits @ sect) = letters"
    using assms(3) all nu sp d by (auto simp: takeWhile_append2)
  have dw: "dropWhile is_upper (letters @ sep @ digits @ sect) = sep @ digits @ sect"
    using assms(3) all nu sp d by (auto simp: dropWhile_append2)
  have code: "(case sep @ digits @ sect of [] \<Rightarrow> sep @ digits @ sect
         | c # r \<Rightarrow> if c = CHR '' '' then r else sep @ digits @ sect) = digits @ sect"
    using assms(3) d nb by auto
  have len: "length (digits @ sect) = 3 \<or> length (digits @ sect) = 4"
    using assms(4,6) by auto
  have t3: "take 3 (digits @ sect) = digits" "drop 3 (digits @ sect) = sect"
    using assms(4) by simp_all
  have sec: "list_all is_letter sect"
    using assms(6) by auto
  have "parse (letters @ sep @ digits @ sect) =
      (if letters \<noteq> [] \<and> (length (digits @ sect) = 3 \<or> length (digits @ sect) = 4) \<and>
          list_all is_digit (take 3 (digits @ sect)) \<and>
          list_all is_letter (drop 3 (digits @ sect))
       then Some (letters, digits @ sect) else None)"
    unfolding parse_def Let_def tw dw code ..
  also have "\<dots> = Some (letters, digits @ sect)"
    unfolding t3 using assms(1,5) len sec by simp
  finally show ?thesis .
qed

lemma parse_form:
  assumes "parse raw = Some cid"
  shows "\<exists>letters sep digits sect.
           raw = letters @ sep @ digits @ sect \<and> letters \<noteq> [] \<and> list_all is_upper letters \<and>
           (sep = [] \<or> sep = '' '') \<and> length digits = 3 \<and> list_all is_digit digits \<and>
           (sect = [] \<or> (\<exists>c. sect = [c] \<and> is_letter c)) \<and>
           cid = (letters, digits @ sect)"
proof -
  define subject where "subject = takeWhile is_upper raw"
  define rest where "rest = dropWhile is_upper raw"
  define code where "code = (case rest of [] \<Rightarrow> rest | c # r \<Rightarrow> (if c = CHR '' '' then r else rest))"
  from assms have ok: "subject \<noteq> []" "length code = 3 \<or> length code = 4"
      "list_all is_digit (take 3 code)" "list_all is_letter (drop 3 code)" "cid = (subject, code)"
    unfolding parse_def Let_def subject_def rest_def code_def
    by (auto split: if_splits)
  have raw: "raw = subject @ rest"
    by (simp add: subject_def rest_def)
  have "\<exists>sep. rest = sep @ code \<and> (sep = [] \<or> sep = '' '')"
  proof (cases rest)
    case Nil
    then show ?thesis by (simp add: code_def)
  next
    case (Cons c r)
    show ?thesis
    proof (cases "c = CHR '' ''")
      case True
      with Cons have "rest = '' '' @ code" by (simp add: code_def)
      then show ?thesis by blast
    next
      case False
      with Cons have "rest = [] @ code" by (simp add: code_def)
      then show ?thesis by blast
    qed
  qed
  then obtain sep where sep: "rest = sep @ code" "sep = [] \<or> sep = '' ''"
    by blast
  have up: "list_all is_upper subject"
    unfolding subject_def list_all_iff by (auto dest: set_takeWhileD)
  have sect: "drop 3 code = [] \<or> (\<exists>c. drop 3 code = [c] \<and> is_letter c)"
  proof (cases "drop 3 code")
    case Nil
    then show ?thesis by simp
  next
    case (Cons c r)
    have "length (drop 3 code) \<le> 1"
      using ok(2) by auto
    with Cons have "r = []" by simp
    with Cons ok(4) show ?thesis by simp
  qed
  have "raw = subject @ sep @ take 3 code @ drop 3 code"
    using raw sep by simp
  moreover have "length (take 3 code) = 3"
    using ok(2) by auto
  moreover have "cid = (subject, take 3 code @ drop 3 code)"
    using ok(5) by simp
  ultimately show ?thesis
    using ok(1,3) up sep(2) sect by blast
qed

subsection \<open>The merge of one cycle\<close>

lemma course_midterm_event [simp]: "course (midterm_event k sp) = k"
  by (cases sp) (simp add: midterm_event_def)

lemma merge_loop_seen:
  assumes "k \<in> set seen"
  shows "(\<forall>e \<in> set (fst (merge_loop seen cs)). course e \<noteq> k) \<and>
         (\<forall>c \<in> set cs. course_of c = Some k \<longrightarrow>
            (c, LaterInSameCycle) \<in> set (snd (merge_loop seen cs)))"
  using assms
proof (induction cs arbitrary: seen)
  case Nil
  then show ?case by simp
next
  case (Cons c cs)
  note seen = Cons.prems
  note same = Cons.IH [OF seen]
  show ?case
  proof (cases "parse (cand_course c)")
    case None
    with same show ?thesis
      by (auto simp: course_of_def case_prod_beta)
  next
    case (Some cid)
    show ?thesis
    proof (cases "canonical cid \<in> set seen")
      case True
      with Some same show ?thesis
        by (auto simp: course_of_def case_prod_beta)
    next
      case False
      with seen have ne: "canonical cid \<noteq> k" by blast
      have "k \<in> set (canonical cid # seen)"
        using seen by simp
      note deeper = Cons.IH [OF this]
      show ?thesis
      proof (cases "spans c")
        case Nil
        with Some False ne same show ?thesis
          by (auto simp: course_of_def case_prod_beta)
      next
        case (Cons sp sps)
        with deeper Some False ne show ?thesis
          by (auto simp: course_of_def case_prod_beta)
      qed
    qed
  qed
qed

lemma merge_loop_first:
  assumes "k \<notin> set seen"
    and "course_of a = Some k" and "spans a = sp # sps"
    and "\<forall>c \<in> set pre. course_of c = Some k \<longrightarrow> spans c = []"
  shows "filter (\<lambda>e. course e = k) (fst (merge_loop seen (pre @ a # post))) = [midterm_event k sp] \<and>
         (\<forall>c \<in> set post. course_of c = Some k \<longrightarrow>
            (c, LaterInSameCycle) \<in> set (snd (merge_loop seen (pre @ a # post))))"
  using assms
proof (induction pre arbitrary: seen)
  case Nil
  from Nil.prems(2) obtain cid where cid: "parse (cand_course a) = Some cid" "canonical cid = k"
    by (auto simp: course_of_def)
  have "k \<in> set (k # seen)" by simp
  from merge_loop_seen [OF this, of post] have
    "filter (\<lambda>e. course e = k) (fst (merge_loop (k # seen) post)) = []"
    "\<forall>c \<in> set post. course_of c = Some k \<longrightarrow>
            (c, LaterInSameCycle) \<in> set (snd (merge_loop (k # seen) post))"
    by (auto simp: filter_empty_conv)
  with cid Nil.prems(1,3) show ?case
    by (simp add: case_prod_beta)
next
  case (Cons c pre)
  note fresh = Cons.prems(1)
  have head: "course_of c = Some k \<longrightarrow> spans c = []"
    and rest: "\<forall>c \<in> set pre. course_of c = Some k \<longrightarrow> spans c = []"
    using Cons.prems(4) by simp_all
  note IH = Cons.IH [OF _ Cons.prems(2,3) rest]
  show ?case
  proof (cases "parse (cand_course c)")
    case None
    with IH [OF fresh] show ?thesis
      by (simp add: case_prod_beta)
  next
    case (Some cid)
    show ?thesis
    proof (cases "canonical cid \<in> set seen")
      case True
      with Some IH [OF fresh] show ?thesis
        by (simp add: case_prod_beta)
    next
      case False
      show ?thesis
      proof (cases "spans c")
        case Nil
        with Some False IH [OF fresh] show ?thesis
          by (simp add: case_prod_beta)
      next
        case (Cons s ss)
        with Some head have ne: "canonical cid \<noteq> k"
          by (auto simp: course_of_def)
        with fresh have "k \<notin> set (canonical cid # seen)" by simp
        from IH [OF this] Some False Cons ne show ?thesis
          by (simp add: case_prod_beta)
      qed
    qed
  qed
qed

lemma stored_midterms_refresh_cycle:
  "stored_midterms (refresh_cycle cs st) = fst (merge_candidates cs)"
  by (simp add: refresh_cycle_def MidtermPage_reparse_def answer_with_def stored_midterms_def
      storageSet_def)

lemma merge_loop_malformed:
  "c \<in> set cs \<Longrightarrow> parse (cand_course c) = None \<Longrightarrow>
     (c, MalformedCourse) \<in> set (snd (merge_loop seen cs))"
proof (induction cs arbitrary: seen)
  case Nil
  then show ?case by simp
next
  case (Cons x cs)
  show ?case
  proof (cases "c = x")
    case True
    with Cons.prems(2) show ?thesis
      by (simp add: case_prod_beta)
  next
    case False
    with Cons.prems have "c \<in> set cs" by simp
    note IH = Cons.IH [OF this Cons.prems(2)]
    show ?thesis
    proof (cases "parse (cand_course x)")
      case None
      with IH show ?thesis by (simp add: case_prod_beta)
    next
      case (Some cid)
      show ?thesis
      proof (cases "spans x")
        case Nil
        with Some IH show ?thesis by (simp add: case_prod_beta)
      next
        case (Cons sp sps)
        with Some IH show ?thesis by (simp add: case_prod_beta)
      qed
    qed
  qed
qed

lemma merge_loop_accepted:
  "e \<in> set (fst (merge_loop seen cs)) \<Longrightarrow>
     \<exists>c \<in> set cs. \<exists>cid sp. parse (cand_course c) = Some cid \<and> sp \<in> set (spans c) \<and>
        e = midterm_event (canonical cid) sp"
proof (induction cs arbitrary: seen)
  case Nil
  then show ?case by simp
next
  case (Cons x cs)
  have old: ?case if "e \<in> set (fst (merge_loop seen' cs))" for seen'
    using Cons.IH [OF that] by auto
  show ?case
  proof (cases "parse (cand_course x)")
    case None
    with Cons.prems old show ?thesis by (simp add: case_prod_beta)
  next
    case (Some cid)
    show ?thesis
    proof (cases "canonical cid \<in> set seen")
      case True
      with Some Cons.prems old show ?thesis by (simp add: case_prod_beta)
    next
      case False
      show ?thesis
      proof (cases "spans x")
        case Nil
        with Some False Cons.prems old show ?thesis by (simp add: case_prod_beta)
      next
        case (Cons sp sps)
        with Some False Cons.prems
        have "e = midterm_event (canonical cid) sp \<or>
            e \<in> set (fst (merge_loop (canonical cid # seen) cs))"
          by (simp add: case_prod_beta)
        then show ?thesis
        proof
          assume "e = midterm_event (canonical cid) sp"
          with Some Cons have "parse (cand_course x) = Some cid \<and> sp \<in> set (spans x) \<and>
              e = midterm_event (canonical cid) sp"
            by simp
          then show ?thesis
            by (intro bexI [of _ x] exI [of _ cid] exI [of _ sp]) simp_all
        next
          assume "e \<in> set (fst (merge_loop (canonical cid # seen) cs))"
          then show ?thesis by (rule old)
        qed
      qed
    qed
  qed
qed

lemma cycle_merge:
  "merge_candidates cycle_announcements =
     ([midterm_event ''MATH 253'' (''2025/10/15'', ''12:00:00'', ''13:00:00'')],
      [(announcement_x, MalformedCourse), (announcement_b, LaterInSameCycle)])"
  by (simp add: merge_candidates_def cycle_announcements_def announcement_a_def
      announcement_x_def announcement_b_def parse_def canonical_def is_upper_def is_digit_def
      is_letter_def)

text \<open>
  Claim C2. Within one cycle, among the candidates of one course taken in the order
  supplied, the first that yields a concrete (date, start, end) span is the one
  accepted: the answer, and so the store after the refresh, holds for that course
  exactly the event of that candidate, and every later candidate of the same course is
  in the rejection report.
\<close>

theorem first_candidate_of_course_wins:
  assumes "course_of a = Some k" and "spans a = sp # sps"
    and "\<forall>c \<in> set pre. course_of c = Some k \<longrightarrow> spans c = []"
  shows "filter (\<lambda>e. course e = k) (fst (merge_candidates (pre @ a # post))) = [midterm_event k sp] \<and>
         filter (\<lambda>e. course e = k) (stored_midterms (refresh_cycle (pre @ a # post) st))
           = [midterm_event k sp] \<and>
         (\<forall>c \<in> set post. course_of c = Some k \<longrightarrow>
            (c, LaterInSameCycle) \<in> set (snd (merge_candidates (pre @ a # post))))"
  unfolding stored_midterms_refresh_cycle merge_candidates_def
  using merge_loop_first [of k "[]" a sp sps pre post] assms by simp

theorem first_candidate_of_course_wins_witness:
  "course_of announcement_a = Some ''MATH 253'' \<and>
   course_of announcement_b = Some ''MATH 253'' \<and>
   filter (\<lambda>e. course e = ''MATH 253'')
       (stored_midterms (refresh_cycle cycle_announcements Map.empty))
     = [midterm_event ''MATH 253'' (''2025/10/15'', ''12:00:00'', ''13:00:00'')] \<and>
   (announcement_b, LaterInSameCycle) \<in> set (snd (merge_candidates cycle_announcements))"
proof -
  have a: "course_of announcement_a = Some ''MATH 253''"
    by (simp add: course_of_def announcement_a_def parse_def canonical_def is_upper_def
        is_digit_def is_letter_def)
  have b: "course_of announcement_b = Some ''MATH 253''"
    by (simp add: course_of_def announcement_b_def parse_def canonical_def is_upper_def
        is_digit_def is_letter_def)
  have sp: "spans announcement_a = (''2025/10/15'', ''12:00:00'', ''13:00:00'') # []"
    by (simp add: announcement_a_def)
  have pre: "\<forall>c \<in> set []. course_of c = Some ''MATH 253'' \<longrightarrow> spans c = []"
    by simp
  from first_candidate_of_course_wins [OF a sp pre,
      where post = "[announcement_x, announcement_b]" and st = Map.empty] a b
  show ?thesis
    by (simp add: cycle_announcements_def)
qed

text \<open>
  Claim C4. The parser accepts exactly the strings \<open><letters><separator?><3 digits><optional
  letter>\<close> and rejects every other string; "CPEN 221" and "MATH253" are accepted, "Intro
  to Programming" is rejected; a candidate whose course is rejected is reported and
  dropped: every stored midterm comes from a candidate whose course parsed, and bears
  the canonical form of that course.
\<close>

theorem parse_accepts_exactly:
  "(parse raw \<noteq> None \<longleftrightarrow>
      (\<exists>letters sep digits sect.
          raw = letters @ sep @ digits @ sect \<and> letters \<noteq> [] \<and> list_all is_upper letters \<and>
          (sep = [] \<or> sep = '' '') \<and> length digits = 3 \<and> list_all is_digit digits \<and>
          (sect = [] \<or> (\<exists>c. sect = [c] \<and> is_letter c)))) \<and>
   parse ''CPEN 221'' = Some (''CPEN'', ''221'') \<and>
   parse ''MATH253'' = Some (''MATH'', ''253'') \<and>
   parse ''Intro to Programming'' = None \<and>
   (\<forall>c \<in> set cs. parse (cand_course c) = None \<longrightarrow>
      (c, MalformedCourse) \<in> set (snd (merge_candidates cs))) \<and>
   (\<forall>e \<in> set (stored_midterms (refresh_cycle cs st)).
      \<exists>c \<in> set cs. \<exists>cid sp. parse (cand_course c) = Some cid \<and> sp \<in> set (spans c) \<and>
        e = midterm_event (canonical cid) sp)"
proof -
  have "parse raw \<noteq> None \<longleftrightarrow>
      (\<exists>letters sep digits sect.
          raw = letters @ sep @ digits @ sect \<and> letters \<noteq> [] \<and> list_all is_upper letters \<and>
          (sep = [] \<or> sep = '' '') \<and> length digits = 3 \<and> list_all is_digit digits \<and>
          (sect = [] \<or> (\<exists>c. sect = [c] \<and> is_letter c)))" (is "?l \<longleftrightarrow> ?r")
  proof
    assume ?l
    then obtain cid where "parse raw = Some cid" by blast
    from parse_form [OF this] show ?r by blast
  next
    assume ?r
    then obtain letters sep digits sect where
      "raw = letters @ sep @ digits @ sect" "letters \<noteq> []" "list_all is_upper letters"
      "sep = [] \<or> sep = '' ''" "length digits = 3" "list_all is_digit digits"
      "sect = [] \<or> (\<exists>c. sect = [c] \<and> is_letter c)"
      by blast
    then show ?l
      using parse_accepts [of letters sep digits sect] by simp
  qed
  moreover have "parse ''CPEN 221'' = Some (''CPEN'', ''221'')"
    "parse ''MATH253'' = Some (''MATH'', ''253'')"
    "parse ''Intro to Programming'' = None"
    by (simp_all add: parse_def is_upper_def is_digit_def is_letter_def)
  moreover have "\<forall>c \<in> set cs. parse (cand_course c) = None \<longrightarrow>
      (c, MalformedCourse) \<in> set (snd (merge_candidates cs))"
    by (simp add: merge_candidates_def merge_loop_malformed)
  moreover have "\<forall>e \<in> set (stored_midterms (refresh_cycle cs st)).
      \<exists>c \<in> set cs. \<exists>cid sp. parse (cand_course c) = Some cid \<and> sp \<in> set (spans c) \<and>
        e = midterm_event (canonical cid) sp"
    unfolding stored_midterms_refresh_cycle merge_candidates_def
    using merge_loop_accepted by blast
  ultimately show ?thesis by blast
qed

theorem parse_accepts_exactly_witness:
  "parse ''CPEN 221A'' = Some (''CPEN'', ''221A'') \<and>
   parse (cand_course announcement_x) = None \<and>
   (announcement_x, MalformedCourse) \<in> set (snd (merge_candidates cycle_announcements)) \<and>
   (\<exists>cid sp. parse (cand_course announcement_a) = Some cid \<and>
      stored_midterms (refresh_cycle cycle_announcements Map.empty)
        = [midterm_event (canonical cid) sp])"
proof -
  have x: "parse (cand_course announcement_x) = None"
    by (simp add: announcement_x_def parse_def is_upper_def is_digit_def is_letter_def)
  have a: "parse (cand_course announcement_a) = Some (''MATH'', ''253'')"
    by (simp add: announcement_a_def parse_def is_upper_def is_digit_def is_letter_def)
  have b: "parse (cand_course announcement_b) = Some (''MATH'', ''253'')"
    by (simp add: announcement_b_def parse_def is_upper_def is_digit_def is_letter_def)
  have stored: "stored_midterms (refresh_cycle cycle_announcements Map.empty)
      = [midterm_event (canonical (''MATH'', ''253'')) (''2025/10/15'', ''12:00:00'', ''13:00:00'')]"
    by (simp add: stored_midterms_refresh_cycle cycle_merge canonical_def)
  have "parse ''CPEN 221A'' = Some (''CPEN'', ''221A'')"
    by (simp add: parse_def is_upper_def is_digit_def is_letter_def)
  moreover have "(announcement_x, MalformedCourse) \<in> set (snd (merge_candidates cycle_announcements))"
    using parse_accepts_exactly [of "''CPEN 221A''" cycle_announcements Map.empty] x
    by (simp add: cycle_announcements_def)
  ultimately show ?thesis
    using x a stored by blast
qed

subsection \<open>The expansion of a recurrence rule\<close>

lemma week_days: "[0 ..< 7] = [0, 1, 2, 3, 4, 5, 6 :: nat]"
  by code_simp

lemma weekday_UNIV: "(UNIV :: weekday set) = {MO, TU, WE, TH, FR, SA, SU}"
proof -
  have "w \<in> {MO, TU, WE, TH, FR, SA, SU}" for w
    by (cases w) simp_all
  then show ?thesis by blast
qed

lemma weekdays_of_week:
  "distinct (map (\<lambda>k. weekday_of (cur + int k)) [0 ..< 7]) \<and>
   set (map (\<lambda>k. weekday_of (cur + int k)) [0 ..< 7]) = UNIV"
proof -
  have "cur mod 7 = 0 \<or> cur mod 7 = 1 \<or> cur mod 7 = 2 \<or> cur mod 7 = 3 \<or> cur mod 7 = 4 \<or>
      cur mod 7 = 5 \<or> cur mod 7 = 6"
    by presburger
  moreover have m: "(cur + j) mod 7 = (cur mod 7 + j) mod 7" for j :: int
    by presburger
  ultimately show ?thesis
    unfolding week_days weekday_of_def weekday_UNIV
    by (elim disjE) (auto simp: m)
qed

lemma length_step_dates: "length (step_dates rule cur) = card (set (by_day rule))"
proof -
  let ?g = "\<lambda>k. weekday_of (cur + int k)"
  let ?W = "set (by_day rule)"
  have "step_dates rule cur = map (\<lambda>k. cur + int k) (filter (\<lambda>k. ?g k \<in> ?W) [0 ..< 7])"
    by (simp add: step_dates_def filter_map comp_def)
  then have "length (step_dates rule cur) = length (filter (\<lambda>w. w \<in> ?W) (map ?g [0 ..< 7]))"
    by (simp add: filter_map comp_def)
  also have "\<dots> = card ({w. w \<in> ?W} \<inter> set (map ?g [0 ..< 7]))"
    using weekdays_of_week [of cur] by (intro distinct_length_filter) blast
  also have "\<dots> = card ?W"
    using weekdays_of_week [of cur] by simp
  finally show ?thesis .
qed

lemma step_dates_range:
  "d \<in> set (step_dates rule cur) \<Longrightarrow>
     cur \<le> d \<and> d \<le> cur + 6 \<and> weekday_of d \<in> set (by_day rule)"
  by (auto simp: step_dates_def)

lemma sorted_step_dates: "sorted_wrt (<) (step_dates rule cur)"
proof -
  have "sorted_wrt (<) (map (\<lambda>k. cur + int k) [0 ..< 7])"
    by (simp add: sorted_wrt_map sorted_wrt_upt)
  then show ?thesis
    unfolding step_dates_def by (rule sorted_wrt_filter)
qed

lemma expand_from_stop:
  "interval rule \<le> 0 \<or> date_to \<le> cur \<Longrightarrow> expand_from rule cur date_from date_to = []"
  by (subst expand_from.simps) simp

lemma expand_from_step:
  "\<not> (interval rule \<le> 0 \<or> date_to \<le> cur) \<Longrightarrow>
     expand_from rule cur date_from date_to =
       filter (\<lambda>d. date_from \<le> d \<and> d < date_to \<and> d \<notin> set (exception_dates rule))
         (step_dates rule cur)
       @ expand_from rule (cur + 7 * interval rule) date_from date_to"
  by (subst expand_from.simps) (simp only: if_False)

lemma expand_from_range:
  "d \<in> set (expand_from rule cur date_from date_to) \<Longrightarrow>
     cur \<le> d \<and> date_from \<le> d \<and> d < date_to \<and> weekday_of d \<in> set (by_day rule) \<and>
     d \<notin> set (exception_dates rule)"
proof (induction rule cur date_from date_to rule: expand_from.induct)
  case (1 rule cur date_from date_to)
  show ?case
  proof (cases "interval rule \<le> 0 \<or> date_to \<le> cur")
    case True
    with "1.prems" show ?thesis by (simp add: expand_from_stop)
  next
    case False
    with "1.prems" consider
      (now) "d \<in> set (step_dates rule cur)" "date_from \<le> d" "d < date_to"
        "d \<notin> set (exception_dates rule)"
    | (later) "d \<in> set (expand_from rule (cur + 7 * interval rule) date_from date_to)"
      by (auto simp: expand_from_step)
    then show ?thesis
    proof cases
      case now
      then show ?thesis using step_dates_range by blast
    next
      case later
      from "1.IH" [OF False later] False show ?thesis by auto
    qed
  qed
qed

lemma sorted_expand_from: "sorted_wrt (<) (expand_from rule cur date_from date_to)"
proof (induction rule cur date_from date_to rule: expand_from.induct)
  case (1 rule cur date_from date_to)
  show ?case
  proof (cases "interval rule \<le> 0 \<or> date_to \<le> cur")
    case True
    then show ?thesis by (simp add: expand_from_stop)
  next
    case False
    let ?now = "filter (\<lambda>d. date_from \<le> d \<and> d < date_to \<and> d \<notin> set (exception_dates rule))
        (step_dates rule cur)"
    let ?later = "expand_from rule (cur + 7 * interval rule) date_from date_to"
    have eq: "expand_from rule cur date_from date_to = ?now @ ?later"
      using False by (rule expand_from_step)
    have "sorted_wrt (<) ?now"
      using sorted_step_dates by (rule sorted_wrt_filter)
    moreover have "sorted_wrt (<) ?later"
      using "1.IH" [OF False] .
    moreover have "x < y" if "x \<in> set ?now" "y \<in> set ?later" for x y
    proof -
      from that(1) have "x \<in> set (step_dates rule cur)"
        by simp
      then have "x \<le> cur + 6"
        using step_dates_range by blast
      moreover have "cur + 7 * interval rule \<le> y"
        using expand_from_range [OF that(2)] by simp
      ultimately show ?thesis using False by simp
    qed
    ultimately show ?thesis
      unfolding eq sorted_wrt_append by blast
  qed
qed

lemma expand_from_exceptions:
  "expand_from rule cur date_from date_to =
     filter (\<lambda>d. d \<notin> set (exception_dates rule))
       (expand_from (rule\<lparr>exception_dates := []\<rparr>) cur date_from date_to)"
proof (induction rule cur date_from date_to rule: expand_from.induct)
  case (1 rule cur date_from date_to)
  show ?case
  proof (cases "interval rule \<le> 0 \<or> date_to \<le> cur")
    case True
    then show ?thesis by (simp add: expand_from_stop)
  next
    case False
    have same: "step_dates (rule\<lparr>exception_dates := []\<rparr>) c = step_dates rule c" for c
      by (simp add: step_dates_def)
    have i: "interval (rule\<lparr>exception_dates := []\<rparr>) = interval rule"
      by simp
    have "expand_from rule cur date_from date_to =
        filter (\<lambda>d. date_from \<le> d \<and> d < date_to \<and> d \<notin> set (exception_dates rule))
          (step_dates rule cur)
        @ expand_from rule (cur + 7 * interval rule) date_from date_to"
      using False by (rule expand_from_step)
    moreover have "expand_from (rule\<lparr>exception_dates := []\<rparr>) cur date_from date_to =
        filter (\<lambda>d. date_from \<le> d \<and> d < date_to) (step_dates rule cur)
        @ expand_from (rule\<lparr>exception_dates := []\<rparr>) (cur + 7 * interval rule) date_from date_to"
      using False by (simp add: expand_from_step same)
    ultimately show ?thesis
      using "1.IH" [OF False] by (simp add: conj_assoc)
  qed
qed

lemma length_expand_from:
  assumes "0 < interval rule" and "exception_dates rule = []" and "date_from \<le> cur"
  shows "length (expand_from rule cur date_from (cur + int n * (interval rule * 7)))
           = n * card (set (by_day rule))"
  using assms(3)
proof (induction n arbitrary: cur)
  case 0
  then show ?case by (simp add: expand_from_stop)
next
  case (Suc n)
  let ?to = "cur + int (Suc n) * (interval rule * 7)"
  have later: "?to = (cur + 7 * interval rule) + int n * (interval rule * 7)"
    by (simp add: algebra_simps)
  have pos: "\<not> (interval rule \<le> 0 \<or> ?to \<le> cur)"
  proof -
    have "0 < int (Suc n) * (interval rule * 7)"
      using assms(1) by simp
    then show ?thesis using assms(1) by linarith
  qed
  have keep: "filter (\<lambda>d. date_from \<le> d \<and> d < ?to \<and> d \<notin> set (exception_dates rule))
      (step_dates rule cur) = step_dates rule cur"
  proof (rule filter_True, rule ballI)
    fix d assume "d \<in> set (step_dates rule cur)"
    then have "cur \<le> d" "d \<le> cur + 6"
      using step_dates_range by blast+
    moreover have "interval rule * 7 \<le> int (Suc n) * (interval rule * 7)"
      using assms(1) by (simp add: mult_le_cancel_right)
    ultimately have "date_from \<le> d" "d < ?to"
      using Suc.prems assms(1) by linarith+
    then show "date_from \<le> d \<and> d < ?to \<and> d \<notin> set (exception_dates rule)"
      using assms(2) by simp
  qed
  have "date_from \<le> cur + 7 * interval rule"
    using Suc.prems assms(1) by simp
  from Suc.IH [OF this] have
    "length (expand_from rule (cur + 7 * interval rule) date_from ?to) = n * card (set (by_day rule))"
    unfolding later .
  moreover have "expand_from rule cur date_from ?to =
      step_dates rule cur @ expand_from rule (cur + 7 * interval rule) date_from ?to"
    using expand_from_step [OF pos, of date_from] keep by simp
  ultimately show ?case
    by (simp add: length_step_dates)
qed

lemma biweekly_dates:
  "expand (biweekly_tu_th [15]) (0, 140) =
     Inr [1, 3, 17, 29, 31, 43, 45, 57, 59, 71, 73, 85, 87, 99, 101, 113, 115, 127, 129]"
  by code_simp

lemma biweekly_all:
  "expand (biweekly_tu_th []) (0, 140) =
     Inr [1, 3, 15, 17, 29, 31, 43, 45, 57, 59, 71, 73, 85, 87, 99, 101, 113, 115, 127, 129]"
  by code_simp

text \<open>
  Claim C5. For every rule with a non-empty weekday set \<open>W\<close> and a positive interval
  \<open>I\<close>, anchored at \<open>start\<close>: the expansion over the window from \<open>start\<close> to \<open>start\<close> plus
  \<open>10 * I\<close> weeks returns; without the exception dates it has exactly \<open>10 * |W|\<close> dates,
  and with them it is that list less the excluded dates; every date falls on a weekday
  of \<open>W\<close>, and the dates are strictly increasing.
\<close>

theorem expand_ten_steps:
  assumes "by_day rule \<noteq> []" and "0 < interval rule" and "anchor rule = start"
  shows "\<exists>every ds.
           expand (rule\<lparr>exception_dates := []\<rparr>) (start, start + 10 * interval rule * 7) = Inr every \<and>
           length every = 10 * card (set (by_day rule)) \<and>
           expand rule (start, start + 10 * interval rule * 7) = Inr ds \<and>
           ds = filter (\<lambda>d. d \<notin> set (exception_dates rule)) every \<and>
           length ds = 10 * card (set (by_day rule))
                        - length (filter (\<lambda>d. d \<in> set (exception_dates rule)) every) \<and>
           (\<forall>d \<in> set ds. weekday_of d \<in> set (by_day rule)) \<and>
           sorted_wrt (<) ds"
proof -
  let ?to = "start + 10 * interval rule * 7"
  let ?rule0 = "rule\<lparr>exception_dates := []\<rparr>"
  let ?every = "expand_from ?rule0 start start ?to"
  let ?ds = "expand_from rule start start ?to"
  have to: "?to = start + int 10 * (interval ?rule0 * 7)"
    by simp
  have e0: "expand ?rule0 (start, ?to) = Inr ?every"
    using assms by (simp add: expand_def)
  have e: "expand rule (start, ?to) = Inr ?ds"
    using assms by (simp add: expand_def)
  have len: "length ?every = 10 * card (set (by_day rule))"
    unfolding to using length_expand_from [of ?rule0 start start 10] assms(2) by simp
  have ds: "?ds = filter (\<lambda>d. d \<notin> set (exception_dates rule)) ?every"
    by (rule expand_from_exceptions)
  have "length ?ds = length ?every - length (filter (\<lambda>d. d \<in> set (exception_dates rule)) ?every)"
    unfolding ds
    using sum_length_filter_compl [of "\<lambda>d. d \<in> set (exception_dates rule)" ?every] by simp
  then have count: "length ?ds = 10 * card (set (by_day rule))
      - length (filter (\<lambda>d. d \<in> set (exception_dates rule)) ?every)"
    unfolding len .
  have days: "\<forall>d \<in> set ?ds. weekday_of d \<in> set (by_day rule)"
  proof
    fix d assume "d \<in> set ?ds"
    from expand_from_range [OF this] show "weekday_of d \<in> set (by_day rule)" by simp
  qed
  have "sorted_wrt (<) ?ds"
    by (rule sorted_expand_from)
  with e0 len e ds count days show ?thesis
    by blast
qed

theorem expand_ten_steps_witness:
  "by_day (biweekly_tu_th [15]) \<noteq> [] \<and> 0 < interval (biweekly_tu_th [15]) \<and>
   weekday_of 15 = TU \<and>
   expand (biweekly_tu_th [15]) (0, 0 + 10 * 2 * 7) =
     Inr [1, 3, 17, 29, 31, 43, 45, 57, 59, 71, 73, 85, 87, 99, 101, 113, 115, 127, 129] \<and>
   length [1, 3, 17, 29, 31, 43, 45, 57, 59, 71, 73, 85, 87, 99, 101, 113, 115, 127, 129 :: int]
     = 10 * card (set (by_day (biweekly_tu_th [15]))) - 1"
proof -
  have days: "by_day (biweekly_tu_th [15]) \<noteq> []"
    and pos: "0 < interval (biweekly_tu_th [15])"
    and start: "anchor (biweekly_tu_th [15]) = 0"
    by (simp_all add: biweekly_tu_th_def)
  have window: "0 + 10 * interval (biweekly_tu_th [15]) * 7 = 140"
    and plain: "(biweekly_tu_th [15])\<lparr>exception_dates := []\<rparr> = biweekly_tu_th []"
    and ex: "exception_dates (biweekly_tu_th [15]) = [15]"
    by (simp_all add: biweekly_tu_th_def)
  from expand_ten_steps [OF days pos start] obtain every ds where
    every: "expand (biweekly_tu_th []) (0, 140) = Inr every"
    and ds: "expand (biweekly_tu_th [15]) (0, 140) = Inr ds"
    and count: "length ds = 10 * card (set (by_day (biweekly_tu_th [15])))
        - length (filter (\<lambda>d. d \<in> set [15]) every)"
    unfolding window plain ex by blast
  from every have "every =
      [1, 3, 15, 17, 29, 31, 43, 45, 57, 59, 71, 73, 85, 87, 99, 101, 113, 115, 127, 129]"
    by (simp add: biweekly_all)
  then have one: "length (filter (\<lambda>d. d \<in> set [15]) every) = 1"
    by simp
  from ds have "ds = [1, 3, 17, 29, 31, 43, 45, 57, 59, 71, 73, 85, 87, 99, 101, 113, 115, 127, 129]"
    by (simp add: biweekly_dates)
  with count one have "length [1, 3, 17, 29, 31, 43, 45, 57, 59, 71, 73, 85, 87, 99, 101, 113, 115, 127, 129 :: int]
     = 10 * card (set (by_day (biweekly_tu_th [15]))) - 1"
    by (simp only:)
  moreover have "weekday_of 15 = TU"
    by (simp add: weekday_of_def)
  ultimately show ?thesis
    using days pos biweekly_dates by simp
qed

end
